theory Spec2Isabelle
  imports Main "HOL-Library.Sublist" "HOL-Library.AList"
begin

section \<open>Library functions the source relies on\<close>

text \<open>
  The module \<^verbatim>\<open>app/holidays.py\<close> is built on Python's \<open>str\<close>, \<open>dict\<close>,
  \<open>datetime.date\<close> and on \<open>dateutil\<close> (\<open>easter\<close>, \<open>relativedelta\<close>). This section
  fixes the meaning of the few library operations the module calls.
\<close>

subsection \<open>Exceptions and results\<close>

datatype error = ValueError | TypeError | AttributeError | KeyError

text \<open>
  A call either raises (\<open>Some (Inl e)\<close>), returns (\<open>Some (Inr x)\<close>), or, for the
  mutually recursive population hooks that are run with a recursion budget, exhausts
  the budget (\<open>None\<close>).
\<close>

type_synonym 'a res = "(error + 'a) option"

definition bind_res :: "'a res \<Rightarrow> ('a \<Rightarrow> 'b res) \<Rightarrow> 'b res" where
  "bind_res m f = (case m of None \<Rightarrow> None | Some (Inl e) \<Rightarrow> Some (Inl e) | Some (Inr x) \<Rightarrow> f x)"

definition ok :: "'a \<Rightarrow> 'a res" where
  "ok x = Some (Inr x)"

definition raise :: "error \<Rightarrow> 'a res" where
  "raise e = Some (Inl e)"

subsection \<open>Strings\<close>

text \<open>
  A Python \<open>str\<close> is a sequence of code points. Every code point in the labels of the
  module is below 256, so one \<open>char\<close> stands for one code point.
  \<open>str_find s sub\<close> is \<open>s.find(sub)\<close>: the lowest index at which \<open>sub\<close> occurs in
  \<open>s\<close>, or \<open>-1\<close>.
\<close>

fun str_find :: "string \<Rightarrow> string \<Rightarrow> int" where
  "str_find [] sub = (if sub = [] then 0 else - 1)"
| "str_find (c # s) sub =
     (if prefix sub (c # s) then 0
      else (let r = str_find s sub in if r < 0 then - 1 else r + 1))"

subsection \<open>Dates\<close>

text \<open>
  A \<open>datetime.date\<close> is represented by its proleptic Gregorian ordinal
  (\<open>date.toordinal()\<close>, day 1 is 0001-01-01): date arithmetic in Python goes through
  the ordinal (\<open>d + timedelta(days=k)\<close> is \<open>fromordinal(d.toordinal() + k)\<close>,
  \<open>(b - a).days\<close> is the difference of the ordinals). The definitions follow
  CPython's \<^verbatim>\<open>_is_leap\<close>, \<^verbatim>\<open>_days_before_year\<close>, \<^verbatim>\<open>_days_before_month\<close>,
  \<^verbatim>\<open>_ymd2ord\<close>, \<^verbatim>\<open>_ord2ymd\<close> and \<^verbatim>\<open>date.weekday\<close>.
\<close>

type_synonym date = int

definition MINYEAR :: int where "MINYEAR = 1"
definition MAXYEAR :: int where "MAXYEAR = 9999"

definition is_leap :: "int \<Rightarrow> bool" where
  "is_leap y = (y mod 4 = 0 \<and> (y mod 100 \<noteq> 0 \<or> y mod 400 = 0))"

definition days_before_year :: "int \<Rightarrow> int" where
  "days_before_year y = (y - 1) * 365 + (y - 1) div 4 - (y - 1) div 100 + (y - 1) div 400"

definition days_in_month :: "int \<Rightarrow> int \<Rightarrow> int" where
  "days_in_month y m =
     (if m = 2 then (if is_leap y then 29 else 28)
      else if m = 4 \<or> m = 6 \<or> m = 9 \<or> m = 11 then 30 else 31)"

definition days_before_month :: "int \<Rightarrow> int \<Rightarrow> int" where
  "days_before_month y m =
     [0, 0, 31, 59, 90, 120, 151, 181, 212, 243, 273, 304, 334] ! nat m
       + (if m > 2 \<and> is_leap y then 1 else 0)"

definition ymd2ord :: "int \<Rightarrow> int \<Rightarrow> int \<Rightarrow> date" where
  "ymd2ord y m d = days_before_year y + days_before_month y m + d"

text \<open>\<open>date(y, m, d)\<close> checks its fields and raises \<open>ValueError\<close>.\<close>

definition mkdate :: "int \<Rightarrow> int \<Rightarrow> int \<Rightarrow> error + date" where
  "mkdate y m d =
     (if MINYEAR \<le> y \<and> y \<le> MAXYEAR \<and> 1 \<le> m \<and> m \<le> 12 \<and> 1 \<le> d \<and> d \<le> days_in_month y m
      then Inr (ymd2ord y m d) else Inl ValueError)"

text \<open>The \<open>year\<close> field of the date with ordinal \<open>n\<close> (first component of \<^verbatim>\<open>_ord2ymd\<close>).\<close>

definition date_year :: "date \<Rightarrow> int" where
  "date_year n =
     (let n0 = n - 1;
          n400 = n0 div 146097; r400 = n0 mod 146097;
          n100 = r400 div 36524; r100 = r400 mod 36524;
          n4 = r100 div 1461; r4 = r100 mod 1461;
          n1 = r4 div 365;
          year = n400 * 400 + 1 + n100 * 100 + n4 * 4 + n1
      in if n1 = 4 \<or> n100 = 4 then year - 1 else year)"

definition weekday :: "date \<Rightarrow> int" where
  "weekday n = (n + 6) mod 7"

subsection \<open>dateutil\<close>

text \<open>
  \<open>d + relativedelta(weekday=W(n))\<close>: the \<open>n\<close>-th occurrence of weekday \<open>W\<close> on or
  after \<open>d\<close> for positive \<open>n\<close>, on or before \<open>d\<close> for negative \<open>n\<close>; a bare
  weekday constant such as \<open>MO\<close> means \<open>MO(+1)\<close>.
\<close>

definition rd_weekday :: "int \<Rightarrow> int \<Rightarrow> date \<Rightarrow> date" where
  "rd_weekday wd n d =
     (let jumpdays = (\<bar>n\<bar> - 1) * 7
      in if n > 0 then d + (jumpdays + (7 - weekday d + wd) mod 7)
         else d - (jumpdays + (weekday d - wd) mod 7))"

text \<open>\<open>dateutil.easter.easter(year)\<close> with the default (western) method.\<close>

definition easter :: "int \<Rightarrow> date" where
  "easter y =
     (let g = y mod 19;
          c = y div 100;
          h = (c - c div 4 - (8 * c + 13) div 25 + 19 * g + 15) mod 30;
          i = h - (h div 28) * (1 - (h div 28) * (29 div (h + 1)) * ((21 - g) div 11));
          j = (y + y div 4 + i + 2 - c + c div 4) mod 7;
          p = i - j;
          d = 1 + (p + 27 + (p + 6) div 40) mod 31;
          m = 3 + (p + 26) div 30
      in ymd2ord y m d)"

section \<open>The module's constants\<close>

definition MON :: int where "MON = 0"
definition TUE :: int where "TUE = 1"
definition WED :: int where "WED = 2"
definition THU :: int where "THU = 3"
definition FRI :: int where "FRI = 4"
definition SAT :: int where "SAT = 5"
definition SUN :: int where "SUN = 6"

definition WEEKEND :: "int list" where "WEEKEND = [SAT, SUN]"

definition JAN :: int where "JAN = 1"
definition MAR :: int where "MAR = 3"
definition MAY :: int where "MAY = 5"
definition JUN :: int where "JUN = 6"
definition JUL :: int where "JUL = 7"
definition AUG :: int where "AUG = 8"
definition OCT :: int where "OCT = 10"
definition NOV :: int where "NOV = 11"
definition DEC :: int where "DEC = 12"

section \<open>HolidayBase\<close>

text \<open>
  An attribute value of the kinds the module stores in \<open>country\<close>, \<open>prov\<close> and
  \<open>state\<close>: \<open>None\<close>, a string, or a list of strings.
\<close>

datatype attr = NoneV | StrV string | ListV "string list"

text \<open>
  A calendar object: the dictionary part (\<open>entries\<close>, in insertion order, as a Python
  \<open>dict\<close> keeps it) and the instance attributes. \<open>country\<close> is \<open>None\<close> while the
  attribute does not exist (\<open>HolidayBase\<close> itself never sets it).
\<close>

record holiday_base =
  entries :: "(date \<times> string) list"
  years :: "int set"
  expand :: bool
  observed :: bool
  country :: "attr option"
  prov :: attr
  state :: attr

text \<open>
  The hook \<open>_populate\<close> is dispatched on the object's class. The operations of
  \<open>HolidayBase\<close> take it as the parameter \<open>pop\<close>.
\<close>

type_synonym 'a hook = "'a holiday_base_scheme \<Rightarrow> int \<Rightarrow> 'a holiday_base_scheme res"

text \<open>
  \<open>__keytransform__\<close> for a key that is a \<open>date\<close> (keys of other types are first
  converted to one by the library, or rejected): the key is returned as it is, and its
  year is populated when \<open>expand\<close> is set and the year is new.
\<close>

definition keytransform :: "'a hook \<Rightarrow> 'a holiday_base_scheme \<Rightarrow> date \<Rightarrow> 'a holiday_base_scheme res" where
  "keytransform pop c key =
     (if expand c \<and> date_year key \<notin> years c
      then pop (c\<lparr>years := insert (date_year key) (years c)\<rparr>) (date_year key)
      else ok c)"

definition contains :: "'a hook \<Rightarrow> 'a holiday_base_scheme \<Rightarrow> date \<Rightarrow> ('a holiday_base_scheme \<times> bool) res" where
  "contains pop c key =
     bind_res (keytransform pop c key) (\<lambda>c'. ok (c', map_of (entries c') key \<noteq> None))"

definition get :: "'a hook \<Rightarrow> 'a holiday_base_scheme \<Rightarrow> date \<Rightarrow> ('a holiday_base_scheme \<times> string option) res" where
  "get pop c key =
     bind_res (keytransform pop c key) (\<lambda>c'. ok (c', map_of (entries c') key))"

text \<open>\<open>dict.__setitem__(self, self.__keytransform__(key), value)\<close>.\<close>

definition store :: "'a hook \<Rightarrow> 'a holiday_base_scheme \<Rightarrow> date \<Rightarrow> string \<Rightarrow> 'a holiday_base_scheme res" where
  "store pop c key v =
     bind_res (keytransform pop c key)
       (\<lambda>c'. ok (c'\<lparr>entries := AList.update key v (entries c')\<rparr>))"

text \<open>
  \<open>__setitem__\<close>. Each \<open>self.get(key)\<close> of the source is a call of its own. When the
  key was found and a later \<open>self.get(key)\<close> returns \<open>None\<close> (only a hook that deletes
  entries can cause that), the source either fails on the \<open>None\<close> or stores a value
  built from it; the model reports an error in all such cases.
\<close>

definition setitem :: "'a hook \<Rightarrow> 'a holiday_base_scheme \<Rightarrow> date \<Rightarrow> string \<Rightarrow> 'a holiday_base_scheme res" where
  "setitem pop c key v =
     bind_res (contains pop c key) (\<lambda>(c1, present).
       if present then
         bind_res (get pop c1 key) (\<lambda>(c2, e1).
           case e1 of None \<Rightarrow> raise AttributeError
           | Some old1 \<Rightarrow>
               if str_find old1 v < 0 then
                 bind_res (get pop c2 key) (\<lambda>(c3, e2).
                   case e2 of None \<Rightarrow> raise TypeError
                   | Some old2 \<Rightarrow>
                       bind_res (get pop c3 key) (\<lambda>(c4, e3).
                         case e3 of None \<Rightarrow> raise TypeError
                         | Some old3 \<Rightarrow>
                             if str_find v old2 < 0
                             then store pop c4 key (v @ '', '' @ old3)
                             else store pop c4 key old3))
               else
                 bind_res (get pop c2 key) (\<lambda>(c3, e2).
                   case e2 of None \<Rightarrow> raise TypeError
                   | Some old2 \<Rightarrow> store pop c3 key old2))
       else store pop c1 key v)"

text \<open>\<open>update\<close> with one \<open>dict\<close> argument: its items are inserted in order.\<close>

fun insert_all :: "'a hook \<Rightarrow> 'a holiday_base_scheme \<Rightarrow> (date \<times> string) list \<Rightarrow> 'a holiday_base_scheme res" where
  "insert_all pop c [] = ok c"
| "insert_all pop c ((k, v) # kvs) = bind_res (setitem pop c k v) (\<lambda>c'. insert_all pop c' kvs)"

text \<open>\<open>for year in ys: self._populate(year)\<close>.\<close>

fun populate_all :: "'a hook \<Rightarrow> 'a holiday_base_scheme \<Rightarrow> int list \<Rightarrow> 'a holiday_base_scheme res" where
  "populate_all pop c [] = ok c"
| "populate_all pop c (y # ys) = bind_res (pop c y) (\<lambda>c'. populate_all pop c' ys)"

text \<open>
  \<open>__setattr__\<close> for the attribute \<open>observed\<close>. \<open>ys\<close> is \<open>list(self.years)\<close>, the
  years in the order in which the runtime enumerates the set.
\<close>

definition setattr_observed :: "'a hook \<Rightarrow> int list \<Rightarrow> 'a holiday_base_scheme \<Rightarrow> bool \<Rightarrow> 'a holiday_base_scheme res" where
  "setattr_observed pop ys c v =
     (if length (entries c) > 0 then
        (let c1 = c\<lparr>observed := v\<rparr>
         in if v then populate_all pop (c1\<lparr>years := {}, entries := []\<rparr>) ys
            else ok (c1\<lparr>entries := filter (\<lambda>(k, v). \<not> str_find v ''Observed'' \<ge> 0) (entries c1)\<rparr>))
      else ok (c\<lparr>observed := v\<rparr>))"

text \<open>\<open>range(start, stop, step)\<close> for a step other than zero.\<close>

definition py_range :: "int \<Rightarrow> int \<Rightarrow> int \<Rightarrow> int list" where
  "py_range start stop step =
     (if step > 0
      then map (\<lambda>i. start + int i * step) [0 ..< nat ((stop - start + step - 1) div step)]
      else map (\<lambda>i. start + int i * step) [0 ..< nat ((start - stop - step - 1) div (- step))])"

text \<open>The step of a slice: absent, a number of days (an \<open>int\<close> or a \<open>timedelta\<close>), or
  a value of another type.\<close>

datatype step = NoStep | StepDays int | StepOther

text \<open>\<open>__getitem__\<close> for a slice key.\<close>

definition getitem_slice :: "'a hook \<Rightarrow> 'a holiday_base_scheme \<Rightarrow> date option \<Rightarrow> date option \<Rightarrow> step
    \<Rightarrow> ('a holiday_base_scheme \<times> date list) res" where
  "getitem_slice pop c start stop stp =
     (case (start, stop) of
        (Some a, Some b) \<Rightarrow>
          bind_res (keytransform pop c a) (\<lambda>c1.
          bind_res (keytransform pop c1 b) (\<lambda>c2.
            case stp of
              StepOther \<Rightarrow> raise TypeError
            | _ \<Rightarrow>
                (let st = (case stp of StepDays k \<Rightarrow> k | _ \<Rightarrow> 1)
                 in if st = 0 then raise ValueError
                    else
                      (let date_diff = b - a;
                           st' = (if (date_diff < 0 \<and> 0 \<le> st) \<or> (date_diff \<ge> 0 \<and> 0 > st)
                                  then st * (- 1) else st)
                       in ok (c2, filter (\<lambda>day. map_of (entries c2) day \<noteq> None)
                                    (map (\<lambda>delta_days. a + delta_days) (py_range 0 date_diff st')))))))
      | _ \<Rightarrow> raise ValueError)"

text \<open>\<open>__getitem__\<close> for a date key.\<close>

definition getitem :: "'a hook \<Rightarrow> 'a holiday_base_scheme \<Rightarrow> date \<Rightarrow> ('a holiday_base_scheme \<times> string) res" where
  "getitem pop c key =
     bind_res (keytransform pop c key) (\<lambda>c'.
       case map_of (entries c') key of None \<Rightarrow> raise KeyError | Some v \<Rightarrow> ok (c', v))"

text \<open>\<open>HolidayBase._populate\<close> does nothing.\<close>

definition populate_base :: "'a hook" where
  "populate_base c year = ok c"

section \<open>Colombia\<close>

definition obs_suffix :: string where
  "obs_suffix = ''(Observed)''"

text \<open>
  The two conditional shapes of \<open>Colombia._populate\<close>: a fixed-date holiday that is
  skipped on a weekend when \<open>observed\<close> is set, and a holiday that is moved to the
  next Monday when \<open>observed\<close> is set and it is not on a Monday. Each gives the
  insertions the statement performs.
\<close>

definition skip_weekend :: "bool \<Rightarrow> date \<Rightarrow> string \<Rightarrow> (date \<times> string) list" where
  "skip_weekend obs d name = (if obs \<and> weekday d \<in> set WEEKEND then [] else [(d, name)])"

definition to_monday :: "bool \<Rightarrow> date \<Rightarrow> string \<Rightarrow> (date \<times> string) list" where
  "to_monday obs d name =
     (if weekday d = MON \<or> \<not> obs then [(d, name)]
      else [(rd_weekday MON 1 d, name @ obs_suffix)])"

definition name_new_year :: string where
  "name_new_year = ''A'' @ [CHR 0xF1] @ ''o Nuevo [New Year's Day]''"
definition name_labour :: string where
  "name_labour = ''D'' @ [CHR 0xED] @ ''a del Trabajo [Labour Day]''"
definition name_independence :: string where
  "name_independence = ''D'' @ [CHR 0xED] @ ''a de la Independencia [Independence Day]''"
definition name_boyaca :: string where
  "name_boyaca = ''Batalla de Boyac'' @ [CHR 0xE1] @ '' [Battle of Boyac'' @ [CHR 0xE1] @ '']''"
definition name_immaculate :: string where
  "name_immaculate = ''La Inmaculada Concepci'' @ [CHR 0xF3] @ ''n [Immaculate Conception]''"
definition name_christmas :: string where
  "name_christmas = ''Navidad [Christmas]''"
definition name_epiphany :: string where
  "name_epiphany = ''D'' @ [CHR 0xED] @ ''a de los Reyes Magos [Epiphany]''"
definition name_joseph :: string where
  "name_joseph = ''D'' @ [CHR 0xED] @ ''a de San Jos'' @ [CHR 0xE9] @ '' [Saint Joseph's Day]''"
definition name_peter_paul :: string where
  "name_peter_paul = ''San Pedro y San Pablo [Saint Peter and Saint Paul]''"
definition name_assumption :: string where
  "name_assumption = ''La Asunci'' @ [CHR 0xF3] @ ''n [Assumption of Mary]''"
definition name_discovery :: string where
  "name_discovery = ''Descubrimiento de Am'' @ [CHR 0xE9] @ ''rica [Discovery of America]''"
definition name_all_saints :: string where
  "name_all_saints = ''Dia de Todos los Santos [All Saint's Day]''"
definition name_cartagena :: string where
  "name_cartagena = ''Independencia de Cartagena [Independence of Cartagena]''"
definition name_maundy :: string where
  "name_maundy = ''Jueves Santo [Maundy Thursday]''"
definition name_good_friday :: string where
  "name_good_friday = ''Viernes Santo [Good Friday]''"
definition name_ascension :: string where
  "name_ascension = ''Ascensi'' @ [CHR 0xF3] @ ''n del se'' @ [CHR 0xF1] @ ''or [Ascension of Jesus]''"
definition name_corpus :: string where
  "name_corpus = ''Corpus Christi [Corpus Christi]''"
definition name_sacred_heart :: string where
  "name_sacred_heart = ''Sagrado Coraz'' @ [CHR 0xF3] @ ''n [Sacred Heart]''"

text \<open>
  The insertions of \<open>Colombia._populate(year)\<close>, in the order of the source. The flag
  \<open>observed\<close> is read once: no statement of the method assigns it.
\<close>

definition colombia_rules :: "bool \<Rightarrow> int \<Rightarrow> (date \<times> string) list" where
  "colombia_rules obs year =
     skip_weekend obs (ymd2ord year JAN 1) name_new_year
     @ [(ymd2ord year MAY 1, name_labour)]
     @ skip_weekend obs (ymd2ord year JUL 20) name_independence
     @ [(ymd2ord year AUG 7, name_boyaca)]
     @ skip_weekend obs (ymd2ord year DEC 8) name_immaculate
     @ [(ymd2ord year DEC 25, name_christmas)]
     @ to_monday obs (ymd2ord year JAN 6) name_epiphany
     @ to_monday obs (ymd2ord year MAR 19) name_joseph
     @ to_monday obs (ymd2ord year JUN 29) name_peter_paul
     @ to_monday obs (ymd2ord year AUG 15) name_assumption
     @ to_monday obs (ymd2ord year OCT 12) name_discovery
     @ to_monday obs (ymd2ord year NOV 1) name_all_saints
     @ to_monday obs (ymd2ord year NOV 11) name_cartagena
     @ [(rd_weekday THU (- 1) (easter year), name_maundy)]
     @ [(rd_weekday FRI (- 1) (easter year), name_good_friday)]
     @ to_monday obs (easter year + 39) name_ascension
     @ to_monday obs (easter year + 60) name_corpus
     @ to_monday obs (easter year + 68) name_sacred_heart"

text \<open>
  \<open>Colombia._populate\<close>. The first statement builds \<open>date(year, JAN, 1)\<close>, which raises
  for a year outside \<open>MINYEAR..MAXYEAR\<close>. The insertions call \<open>__setitem__\<close>, which may
  call \<open>_populate\<close> again through \<open>__keytransform__\<close>; the first argument bounds the
  depth of that recursion.
\<close>

primrec populate_co :: "nat \<Rightarrow> holiday_base \<Rightarrow> int \<Rightarrow> holiday_base res" where
  "populate_co 0 = (\<lambda>c year. None)"
| "populate_co (Suc n) = (\<lambda>c year.
     if year < MINYEAR \<or> MAXYEAR < year then raise ValueError
     else insert_all (populate_co n) c (colombia_rules (observed c) year))"

text \<open>
  \<open>HolidayBase.__init__\<close> as \<open>Colombia.__init__\<close> runs it, after \<open>country\<close> is set to
  \<open>"CO"\<close>. \<open>ys\<close> enumerates the set of the years given.
\<close>

definition colombia_init :: "nat \<Rightarrow> int list \<Rightarrow> bool \<Rightarrow> bool \<Rightarrow> attr \<Rightarrow> attr \<Rightarrow> holiday_base res" where
  "colombia_init n ys ex obs pr st =
     populate_all (populate_co n)
       \<lparr>entries = [], years = set ys, expand = ex, observed = obs,
        country = Some (StrV ''CO''), prov = pr, state = st\<rparr> ys"

section \<open>Sums of calendars\<close>

text \<open>
  The classes of the objects that can be operands of \<open>+\<close>: \<open>HolidayBase\<close> itself,
  \<open>Colombia\<close> (and its alias \<open>CO\<close>), and the class \<open>HolidaySum\<close> that
  \<open>createHolidaySum\<close> makes. A \<open>HolidaySum\<close> object has the further attribute
  \<open>holidays\<close>, the list of its constituents; these are never sums themselves, since
  the constructor flattens the operands.
\<close>

datatype kind = KHolidayBase | KColombia

record holiday_sum = holiday_base +
  holidays :: "(kind \<times> holiday_base) list"

datatype calendar = Simple kind holiday_base | Composite holiday_sum

text \<open>The right operand of \<open>+\<close>: an \<open>int\<close>, a calendar, or a value of another type.\<close>

datatype operand = IntV int | CalV calendar | OtherV

text \<open>\<open>h._populate(year)\<close> for a constituent \<open>h\<close> of the given class.\<close>

definition populate_kind :: "nat \<Rightarrow> kind \<Rightarrow> holiday_base \<Rightarrow> int \<Rightarrow> holiday_base res" where
  "populate_kind n k = (case k of KHolidayBase \<Rightarrow> populate_base | KColombia \<Rightarrow> populate_co n)"

text \<open>
  The loop of \<open>HolidaySum._populate\<close> over the positions of \<open>self.holidays[::-1]\<close>:
  the constituent is populated (which changes that object), then
  \<open>self.update(h)\<close> inserts its items, as they are at that moment, into the sum.
\<close>

fun sum_loop :: "(kind \<Rightarrow> holiday_base \<Rightarrow> int \<Rightarrow> holiday_base res) \<Rightarrow> (holiday_sum \<Rightarrow> int \<Rightarrow> holiday_sum res)
    \<Rightarrow> int \<Rightarrow> holiday_sum \<Rightarrow> nat list \<Rightarrow> holiday_sum res" where
  "sum_loop hpop spop year c [] = ok c"
| "sum_loop hpop spop year c (i # is) =
     (case holidays c ! i of (k, h) \<Rightarrow>
        bind_res (hpop k h year) (\<lambda>h'.
        bind_res (insert_all spop (c\<lparr>holidays := (holidays c)[i := (k, h')]\<rparr>) (entries h')) (\<lambda>c'.
        sum_loop hpop spop year c' is)))"

primrec populate_sum :: "nat \<Rightarrow> holiday_sum \<Rightarrow> int \<Rightarrow> holiday_sum res" where
  "populate_sum 0 = (\<lambda>c year. None)"
| "populate_sum (Suc n) = (\<lambda>c year.
     sum_loop (populate_kind n) (populate_sum n) year c (rev [0 ..< length (holidays c)]))"

text \<open>Truth value of an attribute, Python's \<open>or\<close>, and the wrapping of a value in a list.\<close>

definition truthy :: "attr \<Rightarrow> bool" where
  "truthy a = (case a of NoneV \<Rightarrow> False | StrV s \<Rightarrow> s \<noteq> [] | ListV l \<Rightarrow> l \<noteq> [])"

definition py_or :: "attr \<Rightarrow> attr \<Rightarrow> attr" where
  "py_or a b = (if truthy a then a else b)"

definition as_list :: "attr \<Rightarrow> string list" where
  "as_list a = (case a of NoneV \<Rightarrow> [] | StrV s \<Rightarrow> [s] | ListV l \<Rightarrow> l)"

definition cal_base :: "calendar \<Rightarrow> holiday_base" where
  "cal_base h = (case h of Simple k b \<Rightarrow> b | Composite s \<Rightarrow> holiday_base.truncate s)"

text \<open>
  What \<open>HolidaySum.__init__\<close> appends to \<open>self.holidays\<close> for an operand: the
  operand's own constituents when it has any, and the operand itself otherwise (a sum
  without constituents populates nothing, like \<open>HolidayBase\<close>).
\<close>

definition constituents :: "calendar \<Rightarrow> (kind \<times> holiday_base) list" where
  "constituents h =
     (case h of Simple k b \<Rightarrow> [(k, b)]
      | Composite s \<Rightarrow> if holidays s = [] then [(KHolidayBase, holiday_base.truncate s)] else holidays s)"

text \<open>The \<open>country\<close> and \<open>prov\<close> that \<open>__add__\<close> computes; reading a missing
  \<open>country\<close> raises.\<close>

definition getattr_country :: "holiday_base \<Rightarrow> attr" where
  "getattr_country b = (case country b of None \<Rightarrow> NoneV | Some a \<Rightarrow> a)"

definition sum_country :: "holiday_base \<Rightarrow> holiday_base \<Rightarrow> error + attr" where
  "sum_country a b =
     (let country0 = py_or (getattr_country a) (getattr_country b)
      in case country a of
           None \<Rightarrow> Inl AttributeError
         | Some sc \<Rightarrow>
             if \<not> truthy sc then Inr country0
             else (case country b of
                     None \<Rightarrow> Inl AttributeError
                   | Some oc \<Rightarrow>
                       if truthy oc \<and> sc \<noteq> oc then Inr (ListV (as_list sc @ as_list oc))
                       else Inr country0))"

definition sum_prov :: "holiday_base \<Rightarrow> holiday_base \<Rightarrow> attr" where
  "sum_prov a b =
     (if truthy (prov a) \<and> truthy (prov b) \<and> prov a \<noteq> prov b
      then ListV (as_list (prov a) @ as_list (prov b))
      else py_or (prov a) (prov b))"

text \<open>
  \<open>__add__\<close>. \<open>ys\<close> is \<open>list(self.years)\<close> of the new sum, the union of the operands'
  years in the order in which the runtime enumerates it.
\<close>

definition add :: "nat \<Rightarrow> int list \<Rightarrow> calendar \<Rightarrow> operand \<Rightarrow> calendar res" where
  "add n ys self other =
     (case other of
        IntV i \<Rightarrow> if i = 0 then ok self else raise TypeError
      | OtherV \<Rightarrow> raise TypeError
      | CalV h2 \<Rightarrow>
          (case sum_country (cal_base self) (cal_base h2) of
             Inl e \<Rightarrow> raise e
           | Inr cn \<Rightarrow>
               bind_res
                 (populate_all (populate_sum n)
                    \<lparr>entries = [],
                     years = years (cal_base self) \<union> years (cal_base h2),
                     expand = (expand (cal_base self) \<or> expand (cal_base h2)),
                     observed = (observed (cal_base self) \<or> observed (cal_base h2)),
                     country = Some cn,
                     prov = sum_prov (cal_base self) (cal_base h2),
                     state = NoneV,
                     holidays = constituents self @ constituents h2\<rparr> ys)
                 (\<lambda>s. ok (Composite s))))"

definition radd :: "nat \<Rightarrow> int list \<Rightarrow> calendar \<Rightarrow> operand \<Rightarrow> calendar res" where
  "radd n ys self other = add n ys self other"

text \<open>
  \<open>sum(hs)\<close> for a list of calendars: the running total starts as the \<open>int\<close> 0; \<open>0 + h\<close>
  is \<open>h.__radd__(0)\<close>, and a calendar total \<open>t\<close> gives \<open>t.__add__(h)\<close>. \<open>enum\<close>
  is the order in which the runtime enumerates a set of years.
\<close>

fun sum_from :: "nat \<Rightarrow> (int set \<Rightarrow> int list) \<Rightarrow> operand \<Rightarrow> calendar list \<Rightarrow> operand res" where
  "sum_from n enum acc [] = ok acc"
| "sum_from n enum acc (h # hs) =
     (case acc of
        IntV i \<Rightarrow> bind_res (radd n [] h (IntV i)) (\<lambda>t. sum_from n enum (CalV t) hs)
      | CalV t \<Rightarrow>
          bind_res (add n (enum (years (cal_base t) \<union> years (cal_base h))) t (CalV h))
            (\<lambda>t'. sum_from n enum (CalV t') hs)
      | OtherV \<Rightarrow> raise TypeError)"

definition py_sum :: "nat \<Rightarrow> (int set \<Rightarrow> int list) \<Rightarrow> calendar list \<Rightarrow> operand res" where
  "py_sum n enum hs = sum_from n enum (IntV 0) hs"

text \<open>The dates that a slice returned.\<close>

definition dates_of :: "('a holiday_base_scheme \<times> date list) res \<Rightarrow> date list res" where
  "dates_of r = bind_res r (\<lambda>(c, ds). ok ds)"

section \<open>Notions used in the statements\<close>

text \<open>
  A key is settled in a calendar when \<open>__keytransform__\<close> has nothing to populate for
  it: \<open>expand\<close> is off, or the key's year is already in \<open>years\<close>.
\<close>

definition settled :: "'a holiday_base_scheme \<Rightarrow> date \<Rightarrow> bool" where
  "settled c key = (expand c \<longrightarrow> date_year key \<in> years c)"

text \<open>
  The text that \<open>__setitem__\<close> stores for a new name \<open>v\<close>, given the entry \<open>e\<close> found
  under the key (\<open>None\<close> when there is none).
\<close>

definition merged :: "string \<Rightarrow> string option \<Rightarrow> string" where
  "merged v e =
     (case e of None \<Rightarrow> v
      | Some old \<Rightarrow> if str_find old v < 0 \<and> str_find v old < 0 then v @ '', '' @ old else old)"

text \<open>A freshly constructed \<open>CO()\<close>: no years, \<open>expand\<close> and \<open>observed\<close> as given.\<close>

definition fresh_co :: "bool \<Rightarrow> bool \<Rightarrow> holiday_base" where
  "fresh_co ex obs =
     \<lparr>entries = [], years = {}, expand = ex, observed = obs,
      country = Some (StrV ''CO''), prov = NoneV, state = NoneV\<rparr>"

text \<open>The entry stored under a key in the calendar that a call returned.\<close>

definition entry_of :: "'a holiday_base_scheme res \<Rightarrow> date \<Rightarrow> string option res" where
  "entry_of r key = bind_res r (\<lambda>c. ok (map_of (entries c) key))"

text \<open>
  The dates from \<open>a\<close> up to, but not including, \<open>b\<close> that are keys of the calendar,
  in the direction from \<open>a\<close> to \<open>b\<close>: ascending from \<open>a\<close> when \<open>a \<le> b\<close>,
  descending from \<open>a\<close> otherwise.
\<close>

definition in_range :: "'a holiday_base_scheme \<Rightarrow> date \<Rightarrow> date \<Rightarrow> date list" where
  "in_range c a b =
     (if a \<le> b then filter (\<lambda>d. map_of (entries c) d \<noteq> None) [a .. b - 1]
      else filter (\<lambda>d. map_of (entries c) d \<noteq> None) (rev [b + 1 .. a]))"

text \<open>
  \<open>a + b\<close> for two \<open>Colombia\<close> objects that earlier calls returned, and the entry of
  the resulting calendar under a key.
\<close>

definition add_colombia :: "nat \<Rightarrow> int list \<Rightarrow> holiday_base res \<Rightarrow> holiday_base res \<Rightarrow> calendar res" where
  "add_colombia n ys ra rb =
     bind_res ra (\<lambda>a. bind_res rb (\<lambda>b. add n ys (Simple KColombia a) (CalV (Simple KColombia b))))"

definition cal_entry_of :: "calendar res \<Rightarrow> date \<Rightarrow> string option res" where
  "cal_entry_of r key = bind_res r (\<lambda>h. ok (map_of (entries (cal_base h)) key))"

text \<open>The extra day that a leap year has before any date after February.\<close>

definition leap_day :: "int \<Rightarrow> int" where
  "leap_day y = (if is_leap y then 1 else 0)"

text \<open>A date among the first 365 days of the year \<open>y\<close>.\<close>

definition in_year :: "int \<Rightarrow> date \<Rightarrow> bool" where
  "in_year y k = (days_before_year y < k \<and> k \<le> days_before_year y + 365)"

text \<open>
  The list of entries after \<open>__setitem__\<close> with a settled key, after a run of such
  insertions, and the entry under one key after inserting a run of names there.
\<close>

definition merge_entry :: "(date \<times> string) list \<Rightarrow> date \<times> string \<Rightarrow> (date \<times> string) list" where
  "merge_entry es kv = AList.update (fst kv) (merged (snd kv) (map_of es (fst kv))) es"

definition merge_all :: "(date \<times> string) list \<Rightarrow> (date \<times> string) list \<Rightarrow> (date \<times> string) list" where
  "merge_all es kvs = foldl merge_entry es kvs"

fun merge_at :: "string option \<Rightarrow> string list \<Rightarrow> string option" where
  "merge_at e [] = e"
| "merge_at e (v # vs) = merge_at (Some (merged v e)) vs"

text \<open>The names that a list of insertions writes under the key \<open>k\<close>, in order.\<close>

definition labels_at :: "date \<Rightarrow> (date \<times> string) list \<Rightarrow> string list" where
  "labels_at k kvs = map snd (filter (\<lambda>kv. fst kv = k) kvs)"

text \<open>
  The calendar that \<open>Colombia._populate(y)\<close> leaves: when \<open>expand\<close> is set and the
  year is new, the first insertion enters the year in \<open>years\<close> and runs the method
  once more from within, so the insertions are made twice.
\<close>

definition populate_result :: "holiday_base \<Rightarrow> int \<Rightarrow> holiday_base" where
  "populate_result c y =
     (let rules = colombia_rules (observed c) y
      in if expand c \<and> y \<notin> years c
         then c\<lparr>years := insert y (years c),
                entries := merge_all (merge_all (entries c) rules) rules\<rparr>
         else c\<lparr>entries := merge_all (entries c) rules\<rparr>)"

text \<open>
  Names that are pairwise not contained in one another, and an entry that is not a
  proper substring of any of them.
\<close>

definition incomparable :: "string list \<Rightarrow> bool" where
  "incomparable vs = (\<forall>v \<in> set vs. \<forall>v' \<in> set vs. sublist v v' \<longrightarrow> v = v')"

definition not_inside :: "string option \<Rightarrow> string list \<Rightarrow> bool" where
  "not_inside e vs = (\<forall>w. e = Some w \<longrightarrow> (\<forall>v \<in> set vs. sublist w v \<longrightarrow> sublist v w))"

text \<open>
  The names of the eighteen holidays in the order of the source, and the insertions of
  \<open>Colombia._populate\<close> grouped by holiday.
\<close>

definition colombia_names :: "string list" where
  "colombia_names =
     [name_new_year, name_labour, name_independence, name_boyaca, name_immaculate,
      name_christmas, name_epiphany, name_joseph, name_peter_paul, name_assumption,
      name_discovery, name_all_saints, name_cartagena, name_maundy, name_good_friday,
      name_ascension, name_corpus, name_sacred_heart]"

definition colombia_segments :: "bool \<Rightarrow> int \<Rightarrow> (date \<times> string) list list" where
  "colombia_segments obs year =
     [skip_weekend obs (ymd2ord year JAN 1) name_new_year,
      [(ymd2ord year MAY 1, name_labour)],
      skip_weekend obs (ymd2ord year JUL 20) name_independence,
      [(ymd2ord year AUG 7, name_boyaca)],
      skip_weekend obs (ymd2ord year DEC 8) name_immaculate,
      [(ymd2ord year DEC 25, name_christmas)],
      to_monday obs (ymd2ord year JAN 6) name_epiphany,
      to_monday obs (ymd2ord year MAR 19) name_joseph,
      to_monday obs (ymd2ord year JUN 29) name_peter_paul,
      to_monday obs (ymd2ord year AUG 15) name_assumption,
      to_monday obs (ymd2ord year OCT 12) name_discovery,
      to_monday obs (ymd2ord year NOV 1) name_all_saints,
      to_monday obs (ymd2ord year NOV 11) name_cartagena,
      [(rd_weekday THU (- 1) (easter year), name_maundy)],
      [(rd_weekday FRI (- 1) (easter year), name_good_friday)],
      to_monday obs (easter year + 39) name_ascension,
      to_monday obs (easter year + 60) name_corpus,
      to_monday obs (easter year + 68) name_sacred_heart]"

text \<open>A group of at most one insertion whose label is the name or the name with the suffix.\<close>

definition variant :: "string \<Rightarrow> (date \<times> string) list \<Rightarrow> bool" where
  "variant nm seg = (length seg \<le> 1 \<and> (\<forall>kv \<in> set seg. snd kv = nm \<or> snd kv = nm @ obs_suffix))"

text \<open>No name occurs in another name, even when that one carries the suffix.\<close>

definition names_apart :: bool where
  "names_apart =
     list_all (\<lambda>i. list_all (\<lambda>j. i = j \<or> str_find (colombia_names ! j @ obs_suffix) (colombia_names ! i) < 0)
        [0 ..< 18]) [0 ..< 18]"

text \<open>The entry under each key after population of the years in \<open>S\<close> from nothing.\<close>

definition year_maps :: "bool \<Rightarrow> int set \<Rightarrow> date \<Rightarrow> string option" where
  "year_maps obs S k =
     (if date_year k \<in> S then merge_at None (labels_at k (colombia_rules obs (date_year k))) else None)"

text \<open>
  No entry that the calendar already holds on a date the rules of the year \<open>y\<close> write
  to is a proper substring of the label written there. (Every calendar whose entries
  come from population is of this kind.)
\<close>

definition no_clash :: "holiday_base \<Rightarrow> int \<Rightarrow> bool" where
  "no_clash c y =
     list_all (\<lambda>kv. case map_of (entries c) (fst kv) of
                      None \<Rightarrow> True
                    | Some w \<Rightarrow> sublist w (snd kv) \<longrightarrow> sublist (snd kv) w)
       (colombia_rules (observed c) y)"

text \<open>
  The holidays that \<open>Colombia._populate\<close> moves to Monday: the raw date and the name
  of each, in the order of the source.
\<close>

definition emiliani_holidays :: "int \<Rightarrow> (date \<times> string) list" where
  "emiliani_holidays year =
     [(ymd2ord year JAN 6, name_epiphany),
      (ymd2ord year MAR 19, name_joseph),
      (ymd2ord year JUN 29, name_peter_paul),
      (ymd2ord year AUG 15, name_assumption),
      (ymd2ord year OCT 12, name_discovery),
      (ymd2ord year NOV 1, name_all_saints),
      (ymd2ord year NOV 11, name_cartagena),
      (easter year + 39, name_ascension),
      (easter year + 60, name_corpus),
      (easter year + 68, name_sacred_heart)]"

text \<open>
  A label is recorded on a date when the date is a key and the label occurs in its
  entry (which holds the labels of all holidays inserted on that date).
\<close>

definition recorded :: "'a holiday_base_scheme \<Rightarrow> date \<Rightarrow> string \<Rightarrow> bool" where
  "recorded c d l = (case map_of (entries c) d of None \<Rightarrow> False | Some w \<Rightarrow> sublist l w)"


text \<open>
  The calendar after \<open>__keytransform__\<close> of a key of the year \<open>y\<close> in a \<open>Colombia\<close>
  object.
\<close>

definition expanded :: "holiday_base \<Rightarrow> int \<Rightarrow> holiday_base" where
  "expanded c y =
     (if expand c \<and> y \<notin> years c
      then c\<lparr>years := insert y (years c),
             entries := merge_all (entries c) (colombia_rules (observed c) y)\<rparr>
      else c)"

text \<open>
  The constituent that \<open>h._populate(y)\<close> leaves, by class, and the entry under a key as
  a list of at most one text.
\<close>

definition kind_result :: "kind \<Rightarrow> holiday_base \<Rightarrow> int \<Rightarrow> holiday_base" where
  "kind_result k h y = (case k of KHolidayBase \<Rightarrow> h | KColombia \<Rightarrow> populate_result h y)"

definition entry_list :: "string option \<Rightarrow> string list" where
  "entry_list e = (case e of None \<Rightarrow> [] | Some v \<Rightarrow> [v])"


text \<open>The sum covers the year \<open>y\<close> and the years of the keys of a constituent.\<close>

definition covers :: "holiday_sum \<Rightarrow> int \<Rightarrow> holiday_base \<Rightarrow> bool" where
  "covers c y h = (expand c \<longrightarrow> y \<in> years c \<and> (\<forall>k \<in> fst ` set (entries h). date_year k \<in> years c))"


text \<open>
  A sum of two \<open>CO(expand=False)\<close> objects, the first with \<open>Holiday X\<close> and the second
  with \<open>Holiday\<close> on 2023-05-05, no year populated yet.
\<close>

definition example_sum :: holiday_sum where
  "example_sum =
     \<lparr>entries = [], years = {}, expand = False, observed = True,
      country = Some (StrV ''CO''), prov = NoneV, state = NoneV,
      holidays =
        [(KColombia, fresh_co False True\<lparr>entries := [(ymd2ord 2023 MAY 5, ''Holiday X'')]\<rparr>),
         (KColombia, fresh_co False True\<lparr>entries := [(ymd2ord 2023 MAY 5, ''Holiday'')]\<rparr>)]\<rparr>"

text \<open>The fixed-date holidays that carry the weekend test.\<close>

definition guarded_holidays :: "int \<Rightarrow> (date \<times> string) list" where
  "guarded_holidays year =
     [(ymd2ord year JAN 1, name_new_year),
      (ymd2ord year JUL 20, name_independence),
      (ymd2ord year DEC 8, name_immaculate)]"

text \<open>The fixed-date holidays that are inserted without it.\<close>

definition unguarded_holidays :: "int \<Rightarrow> (date \<times> string) list" where
  "unguarded_holidays year =
     [(ymd2ord year MAY 1, name_labour),
      (ymd2ord year AUG 7, name_boyaca),
      (ymd2ord year DEC 25, name_christmas)]"

section \<open>Results and strings\<close>

lemma bind_res_ok [simp]: "bind_res (ok x) f = f x"
  by (simp add: bind_res_def ok_def)

lemma bind_res_raise [simp]: "bind_res (raise e) f = raise e"
  by (simp add: bind_res_def raise_def)

lemma bind_res_None [simp]: "bind_res None f = None"
  by (simp add: bind_res_def)

lemma ok_neq [simp]:
  "ok x \<noteq> None" "ok x \<noteq> raise e" "raise e \<noteq> ok x" "raise e \<noteq> None"
  "None \<noteq> ok x" "None \<noteq> raise e"
  by (simp_all add: ok_def raise_def)

lemma ok_inject [simp]: "(ok x = ok y) = (x = y)"
  by (simp add: ok_def)

lemma bind_res_eq_ok: "(bind_res m f = ok y) = (\<exists>x. m = ok x \<and> f x = ok y)"
  by (auto simp: bind_res_def ok_def split: option.splits sum.splits)

text \<open>\<open>s.find(t) >= 0\<close> says that \<open>t\<close> occurs in \<open>s\<close> as a contiguous substring.\<close>

lemma str_find_ge0_iff: "(0 \<le> str_find s t) = sublist t s"
proof (induction s)
  case Nil
  then show ?case by auto
next
  case (Cons c s)
  then show ?case
    by (auto simp: Let_def sublist_Cons_right)
qed

lemma str_find_less0_iff: "(str_find s t < 0) = (\<not> sublist t s)"
  using str_find_ge0_iff [of s t] by auto

lemma merged_sublist:
  "merged v e = (case e of None \<Rightarrow> v
     | Some old \<Rightarrow> if \<not> sublist v old \<and> \<not> sublist old v then v @ '', '' @ old else old)"
  by (simp add: merged_def str_find_less0_iff split: option.splits)

section \<open>Insertion\<close>

lemma keytransform_settled: "settled c key \<Longrightarrow> keytransform pop c key = ok c"
  by (auto simp: keytransform_def settled_def)

lemma setitem_settled:
  assumes "settled c key"
  shows "setitem pop c key v =
           ok (c\<lparr>entries := AList.update key (merged v (map_of (entries c) key)) (entries c)\<rparr>)"
  using assms
  by (auto simp: setitem_def contains_def get_def store_def keytransform_settled merged_def
      split: option.splits)

lemma setitem_keytransform:
  assumes "keytransform pop c key = ok c1" and "settled c1 key"
  shows "setitem pop c key v =
           ok (c1\<lparr>entries := AList.update key (merged v (map_of (entries c1) key)) (entries c1)\<rparr>)"
  using assms
  by (auto simp: setitem_def contains_def get_def store_def keytransform_settled merged_def
      split: option.splits)

section \<open>Switching \<open>observed\<close> off\<close>

lemma setattr_observed_false_removes_marked_lemma:
  "entries c \<noteq> [] \<Longrightarrow>
   setattr_observed pop ys c False =
     ok (c\<lparr>observed := False,
           entries := filter (\<lambda>(k, v). \<not> sublist ''Observed'' v) (entries c)\<rparr>)"
  by (simp add: setattr_observed_def str_find_ge0_iff)

text \<open>
  Claim C7, as amended. For every calendar with at least one entry, assigning \<open>False\<close>
  to \<open>observed\<close> deletes exactly the entries whose label contains the text
  \<open>Observed\<close> (with or without parentheses around it) and keeps every other entry as it
  is, in place; of the attributes only \<open>observed\<close> changes.
\<close>

theorem setattr_observed_false_removes_marked:
  "entries c \<noteq> [] \<Longrightarrow>
   setattr_observed pop ys c False =
     ok (c\<lparr>observed := False,
           entries := filter (\<lambda>(k, v). \<not> sublist ''Observed'' v) (entries c)\<rparr>)"
  by (simp add: setattr_observed_def str_find_ge0_iff)

theorem setattr_observed_false_removes_marked_witness:
  "setattr_observed (populate_co 2) []
     (fresh_co False True\<lparr>entries := [(ymd2ord 2023 JAN 9, ''Epiphany(Observed)''),
                                     (ymd2ord 2023 DEC 25, ''Navidad [Christmas]'')]\<rparr>) False
     = ok (fresh_co False False\<lparr>entries := [(ymd2ord 2023 DEC 25, ''Navidad [Christmas]'')]\<rparr>)"
  using setattr_observed_false_removes_marked
    [of "fresh_co False True\<lparr>entries := [(ymd2ord 2023 JAN 9, ''Epiphany(Observed)''),
                                          (ymd2ord 2023 DEC 25, ''Navidad [Christmas]'')]\<rparr>"
        "populate_co 2" "[]"]
  by (simp add: fresh_co_def str_find_ge0_iff [symmetric] del: populate_co.simps)

text \<open>
  The claim as stated names the marker \<open>(Observed)\<close>. An entry labelled
  \<open>Observed locally\<close> does not contain that marker, and is deleted all the same.
\<close>

theorem setattr_observed_false_counterexample:
  "str_find ''Observed locally'' ''(Observed)'' < 0
   \<and> setattr_observed (populate_co 2) []
       (fresh_co False True\<lparr>entries := [(ymd2ord 2023 MAY 5, ''Observed locally'')]\<rparr>) False
     = ok (fresh_co False False)"
  by (simp add: setattr_observed_def fresh_co_def del: populate_co.simps)

section \<open>Insertion merges with the entry found after normalising the key\<close>

text \<open>
  Claim C3, as amended. For every calendar, key and name: \<open>__setitem__\<close> first
  normalises the key, which populates the key's year when \<open>expand\<close> is set and the
  year is new. With the mapping as it is after that step: when the key is present,
  the comma-joined text of the new name and the existing text is stored if and only if
  neither contains the other as a substring, and the existing text is kept otherwise;
  when the key is absent, the name is stored as given.
\<close>

theorem setitem_merges_after_keytransform:
  assumes "keytransform pop c key = ok c1" and "settled c1 key"
  shows "setitem pop c key v =
           ok (c1\<lparr>entries := AList.update key
                 (case map_of (entries c1) key of
                    None \<Rightarrow> v
                  | Some old \<Rightarrow>
                      if \<not> sublist v old \<and> \<not> sublist old v then v @ '', '' @ old else old)
                 (entries c1)\<rparr>)"
  using setitem_keytransform [OF assms] by (simp add: merged_sublist)

theorem setitem_merges_after_keytransform_witness:
  "keytransform (populate_co 2)
     (fresh_co False True\<lparr>entries := [(ymd2ord 2023 DEC 25, ''Navidad [Christmas]'')]\<rparr>)
     (ymd2ord 2023 DEC 25)
     = ok (fresh_co False True\<lparr>entries := [(ymd2ord 2023 DEC 25, ''Navidad [Christmas]'')]\<rparr>)
   \<and> setitem (populate_co 2)
       (fresh_co False True\<lparr>entries := [(ymd2ord 2023 DEC 25, ''Navidad [Christmas]'')]\<rparr>)
       (ymd2ord 2023 DEC 25) ''Xmas''
     = ok (fresh_co False True\<lparr>entries := [(ymd2ord 2023 DEC 25, ''Xmas, Navidad [Christmas]'')]\<rparr>)"
  using setitem_merges_after_keytransform
    [of "populate_co 2"
        "fresh_co False True\<lparr>entries := [(ymd2ord 2023 DEC 25, ''Navidad [Christmas]'')]\<rparr>"
        "ymd2ord 2023 DEC 25"
        "fresh_co False True\<lparr>entries := [(ymd2ord 2023 DEC 25, ''Navidad [Christmas]'')]\<rparr>"
        "''Xmas''"]
  by (simp add: fresh_co_def keytransform_def settled_def str_find_ge0_iff [symmetric]
      del: populate_co.simps)

text \<open>
  The claim as stated judges presence in the mapping before the call. In a fresh
  \<open>CO()\<close> the key 2023-12-25 is not present; inserting \<open>Xmas\<close> there populates 2023
  first, and the text stored is not the name as given.
\<close>

theorem setitem_absent_key_counterexample:
  "map_of (entries (fresh_co True True)) (ymd2ord 2023 DEC 25) = None
   \<and> entry_of (setitem (populate_co 2) (fresh_co True True) (ymd2ord 2023 DEC 25) ''Xmas'')
       (ymd2ord 2023 DEC 25)
     = ok (Some ''Xmas, Navidad [Christmas]'')"
  by code_simp

section \<open>Range queries\<close>

lemma map_add_upt: "map (\<lambda>i. a + int i) [0 ..< n] = [a .. a + int n - 1]"
proof (induction n)
  case 0
  then show ?case by simp
next
  case (Suc n)
  have "[a .. a + int (Suc n) - 1] = [a .. a + int n - 1] @ [a + int n]"
    using upto_rec2 [of a "a + int n"] by simp
  then show ?case using Suc by simp
qed

lemma map_sub_upt: "map (\<lambda>i. a - int i) [0 ..< n] = rev [a - int n + 1 .. a]"
proof (induction n)
  case 0
  then show ?case by simp
next
  case (Suc n)
  have "[a - int (Suc n) + 1 .. a] = (a - int n) # [a - int n + 1 .. a]"
    using upto_rec1 [of "a - int n" a] by simp
  then show ?case using Suc by simp
qed

lemma range_forward:
  assumes "a \<le> b"
  shows "map (\<lambda>delta_days. a + delta_days) (py_range 0 (b - a) 1) = [a .. b - 1]"
proof -
  have "map (\<lambda>delta_days. a + delta_days) (py_range 0 (b - a) 1)
      = map (\<lambda>i. a + int i) [0 ..< nat (b - a)]"
    by (simp add: py_range_def comp_def)
  also have "\<dots> = [a .. a + int (nat (b - a)) - 1]" by (rule map_add_upt)
  finally show ?thesis using assms by simp
qed

lemma range_backward:
  assumes "b < a"
  shows "map (\<lambda>delta_days. a + delta_days) (py_range 0 (b - a) (- 1)) = rev [b + 1 .. a]"
proof -
  have "map (\<lambda>delta_days. a + delta_days) (py_range 0 (b - a) (- 1))
      = map (\<lambda>i. a - int i) [0 ..< nat (a - b)]"
    by (simp add: py_range_def comp_def)
  also have "\<dots> = rev [a - int (nat (a - b)) + 1 .. a]" by (rule map_sub_upt)
  finally show ?thesis using assms by simp
qed

lemma getitem_slice_unit_step:
  assumes "st = 1 \<or> st = - 1"
  shows "getitem_slice pop c (Some a) (Some b) (StepDays st) =
     bind_res (keytransform pop c a) (\<lambda>c1.
     bind_res (keytransform pop c1 b) (\<lambda>c2. ok (c2, in_range c2 a b)))"
proof -
  have "(let date_diff = b - a;
             st' = (if (date_diff < 0 \<and> 0 \<le> st) \<or> (date_diff \<ge> 0 \<and> 0 > st)
                    then st * (- 1) else st)
         in map (\<lambda>delta_days. a + delta_days) (py_range 0 date_diff st'))
        = (if a \<le> b then [a .. b - 1] else rev [b + 1 .. a])"
    using assms range_forward [of a b] range_backward [of b a]
    by (auto simp: Let_def)
  then show ?thesis using assms
    by (auto simp: getitem_slice_def in_range_def Let_def
        intro!: arg_cong2 [where f = bind_res] ext)
qed

lemma getitem_slice_default:
  "getitem_slice pop c (Some a) (Some b) NoStep
     = getitem_slice pop c (Some a) (Some b) (StepDays 1)"
  by (simp add: getitem_slice_def)

lemma getitem_slice_sign:
  "getitem_slice pop c a b (StepDays (- k)) = getitem_slice pop c a b (StepDays k)"
  by (auto simp: getitem_slice_def Let_def split: option.splits
      intro!: arg_cong2 [where f = bind_res] ext)

text \<open>What \<open>in_range\<close> lists: the keys in the half-open interval, each once, in order.\<close>

lemma in_range_ascending:
  "a \<le> b \<Longrightarrow> sorted (in_range c a b) \<and> distinct (in_range c a b)
     \<and> set (in_range c a b) = {d. a \<le> d \<and> d < b \<and> d \<in> fst ` set (entries c)}"
  by (auto simp: in_range_def sorted_wrt_filter map_of_eq_None_iff)

lemma in_range_descending:
  "b < a \<Longrightarrow> sorted (rev (in_range c a b)) \<and> distinct (in_range c a b)
     \<and> set (in_range c a b) = {d. b < d \<and> d \<le> a \<and> d \<in> fst ` set (entries c)}"
  by (auto simp: in_range_def sorted_wrt_filter map_of_eq_None_iff simp flip: rev_filter)


section \<open>Adding zero\<close>

text \<open>
  Claim C9. For every calendar \<open>h\<close>, \<open>h + 0\<close> and \<open>0 + h\<close> return \<open>h\<close> itself,
  unchanged. Hence \<open>sum\<close> over a list of calendars, which starts from \<open>0\<close>, is the
  repeated addition that starts from the first calendar; for two calendars it is
  their sum \<open>h1 + h2\<close>.
\<close>

theorem add_zero_returns_self:
  "add n ys h (IntV 0) = ok h
   \<and> radd n ys h (IntV 0) = ok h
   \<and> py_sum n enum (h # hs) = sum_from n enum (CalV h) hs
   \<and> py_sum n enum [h1, h2]
     = bind_res (add n (enum (years (cal_base h1) \<union> years (cal_base h2))) h1 (CalV h2))
         (\<lambda>t. ok (CalV t))"
  by (simp add: add_def radd_def py_sum_def)

section \<open>Fixed-date holidays on a weekend\<close>

text \<open>
  Claim C1 at the year 2022, with \<open>observed\<close> set: Labour Day, 2022-05-01, falls on
  a Sunday and is in the calendar all the same. \<open>Colombia._populate\<close> inserts Labour
  Day, the Battle of Boyaca and Christmas without the weekend test that it applies to
  New Year's Day, Independence Day and the Immaculate Conception.
\<close>

theorem labour_day_2022_on_sunday_present:
  "weekday (ymd2ord 2022 MAY 1) = SUN
   \<and> entry_of (colombia_init 2 [2022] True True NoneV NoneV) (ymd2ord 2022 MAY 1)
     = ok (Some name_labour)"
  by code_simp

section \<open>Holidays moved to Monday\<close>


section \<open>Sums: conflicting labels\<close>


section \<open>Dates\<close>

lemma year_decomp:
  fixes y :: int
  obtains a b c e where "y - 1 = 400 * a + 100 * b + 4 * c + e"
    "0 \<le> b" "b \<le> 3" "0 \<le> c" "c \<le> 24" "0 \<le> e" "e \<le> 3"
proof -
  let ?a = "(y - 1) div 400" and ?b = "((y - 1) mod 400) div 100"
  let ?c = "((y - 1) mod 100) div 4" and ?e = "(y - 1) mod 4"
  have 1: "y - 1 = 400 * ?a + (y - 1) mod 400" by simp
  have 2: "(y - 1) mod 400 = 100 * ?b + ((y - 1) mod 400) mod 100" by simp
  have 3: "((y - 1) mod 400) mod 100 = (y - 1) mod 100"
    by (simp add: mod_mod_cancel)
  have 4: "(y - 1) mod 100 = 4 * ?c + ((y - 1) mod 100) mod 4" by simp
  have 5: "((y - 1) mod 100) mod 4 = (y - 1) mod 4"
    by (simp add: mod_mod_cancel)
  have eq: "y - 1 = 400 * ?a + 100 * ?b + 4 * ?c + ?e"
    using 1 2 3 4 5 by linarith
  have m400: "0 \<le> (y - 1) mod 400" "(y - 1) mod 400 < 400" by simp_all
  have b: "0 \<le> ?b" "?b \<le> 3" using m400 by arith+
  have m100: "0 \<le> (y - 1) mod 100" "(y - 1) mod 100 < 100" by simp_all
  have c: "0 \<le> ?c" "?c \<le> 24" using m100 by arith+
  have e: "0 \<le> ?e" "?e \<le> 3" by simp_all
  show ?thesis using that [OF eq b c e] .
qed

lemma dby_decomp:
  fixes a b c e :: int
  assumes y: "y - 1 = 400 * a + 100 * b + 4 * c + e"
    and b: "0 \<le> b" "b \<le> 3" and c: "0 \<le> c" "c \<le> 24" and e: "0 \<le> e" "e \<le> 3"
  shows "days_before_year y = 146097 * a + 36524 * b + 1461 * c + 365 * e"
proof -
  have d4: "(y - 1) div 4 = 100 * a + 25 * b + c"
    by (rule int_div_pos_eq [where r = e]) (use y e in auto)
  have d100: "(y - 1) div 100 = 4 * a + b"
    by (rule int_div_pos_eq [where r = "4 * c + e"]) (use y c e in auto)
  have d400: "(y - 1) div 400 = a"
    by (rule int_div_pos_eq [where r = "100 * b + 4 * c + e"]) (use y b c e in auto)
  show ?thesis
    unfolding days_before_year_def d4 d100 d400 using y by simp
qed

lemma date_year_decomp:
  fixes a b c e k :: int
  assumes n: "n - 1 = 146097 * a + 36524 * b + 1461 * c + 365 * e + k"
    and b: "0 \<le> b" "b \<le> 3" and c: "0 \<le> c" "c \<le> 24" and e: "0 \<le> e" "e \<le> 3"
    and k: "0 \<le> k" "k \<le> 364"
  shows "date_year n = 400 * a + 100 * b + 4 * c + e + 1"
proof -
  have n400: "(n - 1) div 146097 = a"
    by (rule int_div_pos_eq [where r = "36524 * b + 1461 * c + 365 * e + k"]) (use n b c e k in auto)
  have r400: "(n - 1) mod 146097 = 36524 * b + 1461 * c + 365 * e + k"
    by (rule int_mod_pos_eq [where q = a]) (use n b c e k in auto)
  have n100: "(36524 * b + 1461 * c + 365 * e + k) div 36524 = b"
    by (rule int_div_pos_eq [where r = "1461 * c + 365 * e + k"]) (use c e k in auto)
  have r100: "(36524 * b + 1461 * c + 365 * e + k) mod 36524 = 1461 * c + 365 * e + k"
    by (rule int_mod_pos_eq [where q = b]) (use c e k in auto)
  have n4: "(1461 * c + 365 * e + k) div 1461 = c"
    by (rule int_div_pos_eq [where r = "365 * e + k"]) (use e k in auto)
  have r4: "(1461 * c + 365 * e + k) mod 1461 = 365 * e + k"
    by (rule int_mod_pos_eq [where q = c]) (use e k in auto)
  have n1: "(365 * e + k) div 365 = e"
    by (rule int_div_pos_eq [where r = k]) (use k in auto)
  show ?thesis
    unfolding date_year_def Let_def n400 r400 n100 r100 n4 r4 n1
    using b e by simp
qed

text \<open>The year of a date among the first 365 days of a year.\<close>

lemma date_year_eq:
  assumes "days_before_year y < n" and "n \<le> days_before_year y + 365"
  shows "date_year n = y"
proof -
  obtain a b c e where d: "y - 1 = 400 * a + 100 * b + 4 * c + e"
    "0 \<le> b" "b \<le> 3" "0 \<le> c" "c \<le> 24" "0 \<le> e" "e \<le> 3"
    by (rule year_decomp)
  have dby: "days_before_year y = 146097 * a + 36524 * b + 1461 * c + 365 * e"
    by (rule dby_decomp [OF d])
  define k where "k = n - 1 - days_before_year y"
  have k: "0 \<le> k" "k \<le> 364" using assms by (simp_all add: k_def)
  have n: "n - 1 = 146097 * a + 36524 * b + 1461 * c + 365 * e + k"
    using dby by (simp add: k_def)
  have "date_year n = 400 * a + 100 * b + 4 * c + e + 1"
    by (rule date_year_decomp [OF n d(2-7) k])
  then show ?thesis using d(1) by simp
qed

lemma leap_day_range: "0 \<le> leap_day y" "leap_day y \<le> 1"
  by (simp_all add: leap_day_def)

lemma ymd2ord_values:
  "ymd2ord y JAN d = days_before_year y + d"
  "ymd2ord y MAR d = days_before_year y + 59 + leap_day y + d"
  "ymd2ord y 4 d = days_before_year y + 90 + leap_day y + d"
  "ymd2ord y MAY d = days_before_year y + 120 + leap_day y + d"
  "ymd2ord y JUN d = days_before_year y + 151 + leap_day y + d"
  "ymd2ord y JUL d = days_before_year y + 181 + leap_day y + d"
  "ymd2ord y AUG d = days_before_year y + 212 + leap_day y + d"
  "ymd2ord y OCT d = days_before_year y + 273 + leap_day y + d"
  "ymd2ord y NOV d = days_before_year y + 304 + leap_day y + d"
  "ymd2ord y DEC d = days_before_year y + 334 + leap_day y + d"
  by (simp_all add: ymd2ord_def days_before_month_def leap_day_def
      JAN_def MAR_def MAY_def JUN_def JUL_def AUG_def OCT_def NOV_def DEC_def)

lemma ymd2ord_3: "ymd2ord y 3 d = days_before_year y + 59 + leap_day y + d"
  using ymd2ord_values(2) by (simp add: MAR_def)


lemma i_range:
  fixes g h :: int
  assumes g: "0 \<le> g" "g \<le> 18" and h: "0 \<le> h" "h \<le> 29"
  shows "0 \<le> h - (h div 28) * (1 - (h div 28) * (29 div (h + 1)) * ((21 - g) div 11))
     \<and> h - (h div 28) * (1 - (h div 28) * (29 div (h + 1)) * ((21 - g) div 11)) \<le> 28"
proof -
  consider "h < 28" | "h = 28" | "h = 29" using h by linarith
  then show ?thesis
  proof cases
    case 1
    then have "h div 28 = 0" using h by simp
    then show ?thesis using 1 h by simp
  next
    case 2
    have "(21 - g) div 11 = 0 \<or> (21 - g) div 11 = 1"
    proof (cases "g \<le> 10")
      case True
      have "(21 - g) div 11 = 1"
        by (rule int_div_pos_eq [where r = "10 - g"]) (use True g in auto)
      then show ?thesis by simp
    next
      case False
      then have "(21 - g) div 11 = 0" using g by simp
      then show ?thesis by simp
    qed
    then show ?thesis using 2 by auto
  next
    case 3
    then show ?thesis by simp
  qed
qed

lemma easter_md:
  fixes p :: int
  assumes p: "- 6 \<le> p" "p \<le> 28"
  shows "ymd2ord y (3 + (p + 26) div 30) (1 + (p + 27 + (p + 6) div 40) mod 31)
      = days_before_year y + leap_day y + 87 + p"
proof (cases "p \<le> 3")
  case True
  have 1: "(p + 26) div 30 = 0" using p True by simp
  have 2: "(p + 6) div 40 = 0" using p True by simp
  have 3: "(p + 27) mod 31 = p + 27" using p True by simp
  show ?thesis by (simp add: 1 2 3 ymd2ord_3)
next
  case False
  have 1: "(p + 26) div 30 = 1"
    by (rule int_div_pos_eq [where r = "p - 4"]) (use p False in auto)
  have 2: "(p + 6) div 40 = 0" using p False by simp
  have 3: "(p + 27) mod 31 = p - 4"
    by (rule int_mod_pos_eq [where q = 1]) (use p False in auto)
  show ?thesis by (simp add: 1 2 3 ymd2ord_values)
qed


lemma easter_offset:
  obtains p where "- 6 \<le> p" "p \<le> 28" "easter y = days_before_year y + leap_day y + 87 + p"
proof -
  define g where "g = y mod 19"
  define c where "c = y div 100"
  define h where "h = (c - c div 4 - (8 * c + 13) div 25 + 19 * g + 15) mod 30"
  define i where "i = h - (h div 28) * (1 - (h div 28) * (29 div (h + 1)) * ((21 - g) div 11))"
  define j where "j = (y + y div 4 + i + 2 - c + c div 4) mod 7"
  define p where "p = i - j"
  have g: "0 \<le> g" "g \<le> 18" unfolding g_def by simp_all
  have h: "0 \<le> h" "h \<le> 29" unfolding h_def by simp_all
  have i: "0 \<le> i \<and> i \<le> 28" unfolding i_def by (rule i_range [OF g h])
  have j: "0 \<le> j" "j \<le> 6" unfolding j_def by simp_all
  have p: "- 6 \<le> p" "p \<le> 28" using i j unfolding p_def by linarith+
  have e: "easter y = ymd2ord y (3 + (p + 26) div 30) (1 + (p + 27 + (p + 6) div 40) mod 31)"
    unfolding easter_def Let_def p_def j_def i_def h_def c_def g_def ..
  have "easter y = days_before_year y + leap_day y + 87 + p"
    unfolding e by (rule easter_md [OF p])
  then show ?thesis using p that by blast
qed


lemma rd_weekday_next: "d \<le> rd_weekday wd 1 d" "rd_weekday wd 1 d \<le> d + 6"
proof -
  have "0 \<le> (7 - weekday d + wd) mod 7" "(7 - weekday d + wd) mod 7 < 7" by simp_all
  then show "d \<le> rd_weekday wd 1 d" "rd_weekday wd 1 d \<le> d + 6"
    unfolding rd_weekday_def Let_def by simp_all
qed

lemma rd_weekday_prev: "d - 6 \<le> rd_weekday wd (- 1) d" "rd_weekday wd (- 1) d \<le> d"
proof -
  have "0 \<le> (weekday d - wd) mod 7" "(weekday d - wd) mod 7 < 7" by simp_all
  then show "d - 6 \<le> rd_weekday wd (- 1) d" "rd_weekday wd (- 1) d \<le> d"
    unfolding rd_weekday_def Let_def by simp_all
qed


section \<open>The dates that the rules of a year write to\<close>

lemma skip_weekend_key: "(k, v) \<in> set (skip_weekend obs d name) \<Longrightarrow> k = d \<and> v = name"
  by (auto simp: skip_weekend_def split: if_splits)

lemma to_monday_key:
  "(k, v) \<in> set (to_monday obs d name) \<Longrightarrow> d \<le> k \<and> k \<le> d + 6"
  using rd_weekday_next [where d = d and wd = MON]
  by (auto simp: to_monday_def split: if_splits)

lemma colombia_rules_in_year:
  assumes "(k, v) \<in> set (colombia_rules obs y)"
  shows "in_year y k"
proof -
  obtain p where p: "- 6 \<le> p" "p \<le> 28"
    and e: "easter y = days_before_year y + leap_day y + 87 + p"
    by (rule easter_offset)
  note l = leap_day_range [of y]
  note th = rd_weekday_prev [where d = "easter y" and wd = THU]
  note fr = rd_weekday_prev [where d = "easter y" and wd = FRI]
  from assms consider
      "(k, v) \<in> set (skip_weekend obs (ymd2ord y JAN 1) name_new_year)"
    | "k = ymd2ord y MAY 1"
    | "(k, v) \<in> set (skip_weekend obs (ymd2ord y JUL 20) name_independence)"
    | "k = ymd2ord y AUG 7"
    | "(k, v) \<in> set (skip_weekend obs (ymd2ord y DEC 8) name_immaculate)"
    | "k = ymd2ord y DEC 25"
    | "(k, v) \<in> set (to_monday obs (ymd2ord y JAN 6) name_epiphany)"
    | "(k, v) \<in> set (to_monday obs (ymd2ord y MAR 19) name_joseph)"
    | "(k, v) \<in> set (to_monday obs (ymd2ord y JUN 29) name_peter_paul)"
    | "(k, v) \<in> set (to_monday obs (ymd2ord y AUG 15) name_assumption)"
    | "(k, v) \<in> set (to_monday obs (ymd2ord y OCT 12) name_discovery)"
    | "(k, v) \<in> set (to_monday obs (ymd2ord y NOV 1) name_all_saints)"
    | "(k, v) \<in> set (to_monday obs (ymd2ord y NOV 11) name_cartagena)"
    | "k = rd_weekday THU (- 1) (easter y)"
    | "k = rd_weekday FRI (- 1) (easter y)"
    | "(k, v) \<in> set (to_monday obs (easter y + 39) name_ascension)"
    | "(k, v) \<in> set (to_monday obs (easter y + 60) name_corpus)"
    | "(k, v) \<in> set (to_monday obs (easter y + 68) name_sacred_heart)"
    unfolding colombia_rules_def set_append by auto
  then show ?thesis
  proof cases
    case 1 then show ?thesis using l by (auto dest!: skip_weekend_key simp: in_year_def ymd2ord_values)
  next
    case 2 then show ?thesis using l by (simp add: in_year_def ymd2ord_values)
  next
    case 3 then show ?thesis using l by (auto dest!: skip_weekend_key simp: in_year_def ymd2ord_values)
  next
    case 4 then show ?thesis using l by (simp add: in_year_def ymd2ord_values)
  next
    case 5 then show ?thesis using l by (auto dest!: skip_weekend_key simp: in_year_def ymd2ord_values)
  next
    case 6 then show ?thesis using l by (simp add: in_year_def ymd2ord_values)
  next
    case 7 then show ?thesis using l by (auto dest!: to_monday_key simp: in_year_def ymd2ord_values)
  next
    case 8 then show ?thesis using l by (auto dest!: to_monday_key simp: in_year_def ymd2ord_values)
  next
    case 9 then show ?thesis using l by (auto dest!: to_monday_key simp: in_year_def ymd2ord_values)
  next
    case 10 then show ?thesis using l by (auto dest!: to_monday_key simp: in_year_def ymd2ord_values)
  next
    case 11 then show ?thesis using l by (auto dest!: to_monday_key simp: in_year_def ymd2ord_values)
  next
    case 12 then show ?thesis using l by (auto dest!: to_monday_key simp: in_year_def ymd2ord_values)
  next
    case 13 then show ?thesis using l by (auto dest!: to_monday_key simp: in_year_def ymd2ord_values)
  next
    case 14 then show ?thesis using l p th unfolding e in_year_def by simp
  next
    case 15 then show ?thesis using l p fr unfolding e in_year_def by simp
  next
    case 16 then show ?thesis using l p unfolding in_year_def by (auto dest!: to_monday_key simp: e)
  next
    case 17 then show ?thesis using l p unfolding in_year_def by (auto dest!: to_monday_key simp: e)
  next
    case 18 then show ?thesis using l p unfolding in_year_def by (auto dest!: to_monday_key simp: e)
  qed
qed


lemma colombia_rules_year: "(k, v) \<in> set (colombia_rules obs y) \<Longrightarrow> date_year k = y"
  using colombia_rules_in_year [of k v obs y] date_year_eq [of y k] by (simp add: in_year_def)

section \<open>Population of a year in closed form\<close>

lemma merge_all_simps [simp]:
  "merge_all es [] = es"
  "merge_all es (kv # kvs) = merge_all (merge_entry es kv) kvs"
  by (simp_all add: merge_all_def)

lemma merge_all_append: "merge_all es (xs @ ys) = merge_all (merge_all es xs) ys"
  by (simp add: merge_all_def)

lemma settled_entries [simp]: "settled (c\<lparr>entries := es\<rparr>) k = settled c k"
  by (simp add: settled_def)

lemma insert_all_settled:
  "(\<And>k v. (k, v) \<in> set kvs \<Longrightarrow> settled c k) \<Longrightarrow>
   insert_all pop c kvs = ok (c\<lparr>entries := merge_all (entries c) kvs\<rparr>)"
proof (induction kvs arbitrary: c)
  case Nil
  then show ?case by simp
next
  case (Cons kv kvs)
  obtain k v where kv: "kv = (k, v)" by (cases kv)
  have s: "settled c k" using Cons.prems [of k v] kv by simp
  let ?c' = "c\<lparr>entries := merge_entry (entries c) (k, v)\<rparr>"
  have "insert_all pop ?c' kvs = ok (?c'\<lparr>entries := merge_all (entries ?c') kvs\<rparr>)"
    by (rule Cons.IH) (use Cons.prems kv in auto)
  then show ?case
    by (simp add: kv setitem_settled [OF s] merge_entry_def)
qed

lemma insert_all_expand:
  assumes ne: "kvs \<noteq> []"
    and yr: "\<And>k v. (k, v) \<in> set kvs \<Longrightarrow> date_year k = y"
    and ex: "expand c" "y \<notin> years c"
    and pop: "pop (c\<lparr>years := insert y (years c)\<rparr>) y = ok c1"
    and c1: "y \<in> years c1"
  shows "insert_all pop c kvs = ok (c1\<lparr>entries := merge_all (entries c1) kvs\<rparr>)"
proof -
  obtain k v rest where kvs: "kvs = (k, v) # rest" using ne by (cases kvs) auto
  have k: "date_year k = y" using yr [of k v] kvs by simp
  have kt: "keytransform pop c k = ok c1"
    using ex pop by (simp add: keytransform_def k)
  have s1: "settled c1 k" using c1 by (simp add: settled_def k)
  let ?c' = "c1\<lparr>entries := merge_entry (entries c1) (k, v)\<rparr>"
  have "insert_all pop ?c' rest = ok (?c'\<lparr>entries := merge_all (entries ?c') rest\<rparr>)"
  proof (rule insert_all_settled)
    fix k' v' assume "(k', v') \<in> set rest"
    then have "date_year k' = y" using yr [of k' v'] kvs by simp
    then show "settled ?c' k'" using c1 by (simp add: settled_def)
  qed
  then show ?thesis
    by (simp add: kvs setitem_keytransform [OF kt s1] merge_entry_def)
qed

lemma colombia_rules_nonempty: "colombia_rules obs y \<noteq> []"
  by (simp add: colombia_rules_def)

lemma populate_co_settled:
  assumes "MINYEAR \<le> y" "y \<le> MAXYEAR" and "expand c \<longrightarrow> y \<in> years c"
  shows "populate_co (Suc n) c y = ok (c\<lparr>entries := merge_all (entries c) (colombia_rules (observed c) y)\<rparr>)"
proof -
  have "insert_all (populate_co n) c (colombia_rules (observed c) y)
      = ok (c\<lparr>entries := merge_all (entries c) (colombia_rules (observed c) y)\<rparr>)"
  proof (rule insert_all_settled)
    fix k v assume "(k, v) \<in> set (colombia_rules (observed c) y)"
    then have "date_year k = y" by (rule colombia_rules_year)
    then show "settled c k" using assms(3) by (simp add: settled_def)
  qed
  then show ?thesis using assms(1,2) by simp
qed

lemma populate_co_result:
  assumes "MINYEAR \<le> y" "y \<le> MAXYEAR"
  shows "populate_co (Suc (Suc n)) c y = ok (populate_result c y)"
proof (cases "expand c \<and> y \<notin> years c")
  case False
  then show ?thesis
    using populate_co_settled [OF assms, of c "Suc n"] by (auto simp: populate_result_def Let_def)
next
  case True
  let ?rules = "colombia_rules (observed c) y"
  let ?c0 = "c\<lparr>years := insert y (years c)\<rparr>"
  let ?c1 = "?c0\<lparr>entries := merge_all (entries ?c0) (colombia_rules (observed ?c0) y)\<rparr>"
  have pop: "populate_co (Suc n) ?c0 y = ok ?c1"
    by (rule populate_co_settled [OF assms]) simp
  have "insert_all (populate_co (Suc n)) c ?rules = ok (?c1\<lparr>entries := merge_all (entries ?c1) ?rules\<rparr>)"
  proof (rule insert_all_expand [where y = y])
    show "?rules \<noteq> []" by (rule colombia_rules_nonempty)
    show "date_year k = y" if "(k, v) \<in> set ?rules" for k v
      using that by (rule colombia_rules_year)
    show "expand c" "y \<notin> years c" using True by simp_all
    show "populate_co (Suc n) ?c0 y = ok ?c1" by (rule pop)
    show "y \<in> years ?c1" by simp
  qed
  then show ?thesis using assms True by (simp add: populate_result_def Let_def)
qed

section \<open>The entry under one key\<close>

lemma map_of_merge_entry:
  "map_of (merge_entry es kv) k =
     (if k = fst kv then Some (merged (snd kv) (map_of es k)) else map_of es k)"
  by (simp add: merge_entry_def update_conv')

lemma map_of_merge_all:
  "map_of (merge_all es kvs) k = merge_at (map_of es k) (labels_at k kvs)"
proof (induction kvs arbitrary: es)
  case Nil
  then show ?case by (simp add: labels_at_def)
next
  case (Cons kv kvs)
  then show ?case
    by (cases "fst kv = k") (simp_all add: labels_at_def map_of_merge_entry)
qed

lemma labels_at_append: "labels_at k (xs @ ys) = labels_at k xs @ labels_at k ys"
  by (simp add: labels_at_def)

lemma merge_at_append: "merge_at e (xs @ ys) = merge_at (merge_at e xs) ys"
  by (induction xs arbitrary: e) simp_all

lemma merged_covers: "sublist v w \<Longrightarrow> merged v (Some w) = w"
  by (simp add: merged_sublist)

lemma merge_at_covered:
  "(\<And>v. v \<in> set vs \<Longrightarrow> sublist v w) \<Longrightarrow> merge_at (Some w) vs = Some w"
  by (induction vs) (simp_all add: merged_covers)

lemma sublist_join_left: "sublist v (v @ '', '' @ w)"
  unfolding sublist_def by (rule exI [of _ "[]"], rule exI [of _ "'', '' @ w"]) simp

lemma sublist_join_right: "sublist w (v @ '', '' @ w)"
  unfolding sublist_def by (rule exI [of _ "v @ '', ''"], rule exI [of _ "[]"]) simp

lemma merged_cases:
  "merged v e = v \<and> e = None
   \<or> (\<exists>w. e = Some w \<and> merged v e = v @ '', '' @ w \<and> \<not> sublist v w \<and> \<not> sublist w v)
   \<or> (\<exists>w. e = Some w \<and> merged v e = w \<and> (sublist v w \<or> sublist w v))"
  by (cases e) (auto simp: merged_sublist)

lemma merge_at_covers_aux:
  assumes inc: "incomparable all"
  shows "set done \<union> set vs \<subseteq> set all \<Longrightarrow> not_inside e all
      \<Longrightarrow> (\<And>v. v \<in> set done \<Longrightarrow> \<exists>w. e = Some w \<and> sublist v w)
      \<Longrightarrow> (done = [] \<and> vs = [] \<and> merge_at e vs = e)
          \<or> (\<exists>w. merge_at e vs = Some w \<and> (\<forall>v \<in> set done \<union> set vs. sublist v w))"
proof (induction vs arbitrary: e "done")
  case Nil
  then show ?case by (cases "done") auto
next
  case (Cons v vs)
  let ?e' = "Some (merged v e)"
  have v_all: "v \<in> set all" using Cons.prems(1) by simp
  have cov: "sublist v (merged v e)"
  proof -
    consider "merged v e = v" "e = None"
      | w where "e = Some w" "merged v e = v @ '', '' @ w"
      | w where "e = Some w" "merged v e = w" "sublist v w \<or> sublist w v"
      using merged_cases [of v e] by blast
    then show ?thesis
    proof cases
      case 1 then show ?thesis by simp
    next
      case 2 then show ?thesis using sublist_join_left [of v w] by simp
    next
      case 3
      then show ?thesis using Cons.prems(2) v_all by (auto simp: not_inside_def)
    qed
  qed
  have grow: "sublist w (merged v e)" if "e = Some w" for w
    using that merged_cases [of v e] sublist_join_right [of w v] by auto
  have ni: "not_inside ?e' all"
    unfolding not_inside_def
  proof (intro allI impI ballI)
    fix w u assume w: "?e' = Some w" and u: "u \<in> set all" and wu: "sublist w u"
    have "sublist v u" using cov w wu sublist_order.order_trans by auto
    then have "v = u" using inc v_all u by (auto simp: incomparable_def)
    then show "sublist u w" using cov w by simp
  qed
  have done': "\<exists>w. ?e' = Some w \<and> sublist u w" if "u \<in> set (done @ [v])" for u
  proof (cases "u = v")
    case True then show ?thesis using cov by simp
  next
    case False
    then have "u \<in> set done" using that by simp
    then obtain w where "e = Some w" "sublist u w" using Cons.prems(3) by blast
    then show ?thesis using grow [of w] sublist_order.order_trans by auto
  qed
  have "(done @ [v] = [] \<and> vs = [] \<and> merge_at ?e' vs = ?e')
          \<or> (\<exists>w. merge_at ?e' vs = Some w \<and> (\<forall>u \<in> set (done @ [v]) \<union> set vs. sublist u w))"
    by (rule Cons.IH) (use Cons.prems(1) ni done' in auto)
  then show ?case by auto
qed

lemma merge_at_covers:
  assumes "incomparable vs" "not_inside e vs" "vs \<noteq> []"
  shows "\<exists>w. merge_at e vs = Some w \<and> (\<forall>v \<in> set vs. sublist v w)"
  using merge_at_covers_aux [OF assms(1), of "[]" vs e] assms(2,3) by auto

lemma merge_at_idem:
  assumes "incomparable vs" "not_inside e vs"
  shows "merge_at (merge_at e vs) vs = merge_at e vs"
proof (cases "vs = []")
  case True then show ?thesis by simp
next
  case False
  then obtain w where "merge_at e vs = Some w" "\<forall>v \<in> set vs. sublist v w"
    using merge_at_covers [OF assms] by blast
  then show ?thesis by (simp add: merge_at_covered)
qed

section \<open>The labels of a year do not contain one another\<close>

lemma names_apart: "names_apart"
  by code_simp

lemma colombia_rules_concat: "colombia_rules obs y = concat (colombia_segments obs y)"
  by (simp add: colombia_rules_def colombia_segments_def)

lemma variant_skip_weekend: "variant nm (skip_weekend obs d nm)"
  by (simp add: variant_def skip_weekend_def)

lemma variant_to_monday: "variant nm (to_monday obs d nm)"
  by (simp add: variant_def to_monday_def)

lemma variant_single: "variant nm [(d, nm)]"
  by (simp add: variant_def)

lemma colombia_segments_variants:
  "list_all2 variant colombia_names (colombia_segments obs y)"
  by (simp add: colombia_names_def colombia_segments_def
      variant_skip_weekend variant_to_monday variant_single)

lemma names_apart_nth:
  assumes "i < 18" "j < 18" "i \<noteq> j"
  shows "\<not> sublist (colombia_names ! i) (colombia_names ! j @ obs_suffix)"
proof -
  have "i \<in> set [0 ..< 18]" "j \<in> set [0 ..< 18]" using assms by simp_all
  then have "i = j \<or> str_find (colombia_names ! j @ obs_suffix) (colombia_names ! i) < 0"
    using names_apart unfolding names_apart_def list_all_iff by blast
  then show ?thesis using assms(3) by (simp add: str_find_less0_iff)
qed

lemma in_concat_nth:
  assumes "x \<in> set (concat xss)"
  obtains i where "i < length xss" "x \<in> set (xss ! i)"
proof -
  obtain xs where "xs \<in> set xss" "x \<in> set xs" using assms by auto
  then show ?thesis using that in_set_conv_nth [of xs xss] by blast
qed

lemma colombia_labels_incomparable:
  assumes "(k, v) \<in> set (colombia_rules obs y)" "(k', v') \<in> set (colombia_rules obs y)"
    and "sublist v v'"
  shows "v = v'"
proof -
  let ?segs = "colombia_segments obs y"
  have len: "length ?segs = 18" "length colombia_names = 18"
    by (simp_all add: colombia_segments_def colombia_names_def)
  obtain i where i: "i < 18" "(k, v) \<in> set (?segs ! i)"
    using assms(1) len in_concat_nth [of "(k, v)" ?segs] unfolding colombia_rules_concat by metis
  obtain j where j: "j < 18" "(k', v') \<in> set (?segs ! j)"
    using assms(2) len in_concat_nth [of "(k', v')" ?segs] unfolding colombia_rules_concat by metis
  have vi: "variant (colombia_names ! i) (?segs ! i)"
    using colombia_segments_variants [of obs y] i(1) len by (simp add: list_all2_conv_all_nth)
  have vj: "variant (colombia_names ! j) (?segs ! j)"
    using colombia_segments_variants [of obs y] j(1) len by (simp add: list_all2_conv_all_nth)
  show ?thesis
  proof (cases "i = j")
    case True
    have "length (?segs ! i) \<le> 1" using vi by (simp add: variant_def)
    then obtain x where "set (?segs ! i) \<subseteq> {x}"
      by (cases "?segs ! i") auto
    then show ?thesis using i(2) j(2) True by auto
  next
    case False
    have 1: "sublist (colombia_names ! i) v"
      using vi i(2) by (auto simp: variant_def)
    have 2: "sublist v' (colombia_names ! j @ obs_suffix)"
      using vj j(2) by (auto simp: variant_def)
    have "sublist (colombia_names ! i) (colombia_names ! j @ obs_suffix)"
      using 1 assms(3) 2 sublist_order.order_trans by blast
    then show ?thesis using names_apart_nth [OF i(1) j(1) False] by simp
  qed
qed

lemma colombia_labels_at_incomparable: "incomparable (labels_at k (colombia_rules obs y))"
  unfolding incomparable_def labels_at_def
  using colombia_labels_incomparable [of _ _ obs y] by auto

section \<open>The mapping after populating a set of years\<close>

lemma not_inside_merged:
  assumes inc: "incomparable all" and v: "v \<in> set all" and ni: "not_inside e all"
  shows "not_inside (Some (merged v e)) all"
  unfolding not_inside_def
proof (intro allI impI ballI)
  fix w u assume w: "Some (merged v e) = Some w" and u: "u \<in> set all" and wu: "sublist w u"
  have cov: "sublist v (merged v e)"
    using merged_cases [of v e] ni v sublist_join_left [of v]
    by (auto simp: not_inside_def)
  have "sublist v u" using cov w wu sublist_order.order_trans by auto
  then have "v = u" using inc v u by (auto simp: incomparable_def)
  then show "sublist u w" using cov w by simp
qed

lemma not_inside_merge_at:
  assumes inc: "incomparable all"
  shows "set vs \<subseteq> set all \<Longrightarrow> not_inside e all \<Longrightarrow> not_inside (merge_at e vs) all"
proof (induction vs arbitrary: e)
  case Nil
  then show ?case by simp
next
  case (Cons v vs)
  have "not_inside (Some (merged v e)) all"
    by (rule not_inside_merged [OF inc]) (use Cons.prems in auto)
  then show ?case using Cons by simp
qed

lemma not_inside_None [simp]: "not_inside None vs"
  by (simp add: not_inside_def)

lemma labels_at_other_year:
  assumes "date_year k \<noteq> y"
  shows "labels_at k (colombia_rules obs y) = []"
proof -
  have "\<And>kv. kv \<in> set (colombia_rules obs y) \<Longrightarrow> fst kv \<noteq> k"
    using colombia_rules_year [of _ _ obs y] assms by (metis prod.collapse)
  then show ?thesis by (simp add: labels_at_def filter_empty_conv)
qed

lemma merge_at_rules_idem:
  "not_inside e (labels_at k (colombia_rules obs y)) \<Longrightarrow>
   merge_at (merge_at e (labels_at k (colombia_rules obs y))) (labels_at k (colombia_rules obs y))
     = merge_at e (labels_at k (colombia_rules obs y))"
  by (rule merge_at_idem [OF colombia_labels_at_incomparable])

lemma map_of_populate_result:
  "map_of (entries (populate_result c y)) k =
     (if expand c \<and> y \<notin> years c
      then merge_at (merge_at (map_of (entries c) k) (labels_at k (colombia_rules (observed c) y)))
             (labels_at k (colombia_rules (observed c) y))
      else merge_at (map_of (entries c) k) (labels_at k (colombia_rules (observed c) y)))"
  by (simp add: populate_result_def Let_def map_of_merge_all)

lemma populate_result_attrs [simp]:
  "observed (populate_result c y) = observed c"
  "expand (populate_result c y) = expand c"
  "years (populate_result c y) = (if expand c then insert y (years c) else years c)"
  "country (populate_result c y) = country c"
  "prov (populate_result c y) = prov c"
  "state (populate_result c y) = state c"
  by (auto simp: populate_result_def Let_def)

lemma map_of_populate_result_clean:
  assumes "not_inside (map_of (entries c) k) (labels_at k (colombia_rules (observed c) y))"
  shows "map_of (entries (populate_result c y)) k
     = merge_at (map_of (entries c) k) (labels_at k (colombia_rules (observed c) y))"
  using merge_at_rules_idem [OF assms] by (simp add: map_of_populate_result)

lemma year_maps_populate_result:
  assumes "map_of (entries c) = year_maps (observed c) S"
  shows "map_of (entries (populate_result c y)) = year_maps (observed c) (insert y S)"
proof
  fix k
  let ?vs = "labels_at k (colombia_rules (observed c) y)"
  show "map_of (entries (populate_result c y)) k = year_maps (observed c) (insert y S) k"
  proof (cases "date_year k = y")
    case False
    then have "?vs = []" by (rule labels_at_other_year)
    then show ?thesis using False assms by (simp add: map_of_populate_result year_maps_def)
  next
    case True
    show ?thesis
    proof (cases "y \<in> S")
      case False
      then have e: "map_of (entries c) k = None" using assms True by (simp add: year_maps_def)
      have "map_of (entries (populate_result c y)) k = merge_at None ?vs"
        using map_of_populate_result_clean [of c k y] e by simp
      then show ?thesis using True by (simp add: year_maps_def)
    next
      case y: True
      then have e: "map_of (entries c) k = merge_at None ?vs"
        using assms True by (simp add: year_maps_def)
      have ni: "not_inside (merge_at None ?vs) ?vs"
        by (rule not_inside_merge_at [OF colombia_labels_at_incomparable]) simp_all
      have "map_of (entries (populate_result c y)) k = merge_at (merge_at None ?vs) ?vs"
        using map_of_populate_result_clean [of c k y] e ni by simp
      also have "\<dots> = merge_at None ?vs"
        by (rule merge_at_rules_idem) simp
      finally show ?thesis using True y by (simp add: year_maps_def)
    qed
  qed
qed

lemma populate_all_co:
  assumes "\<And>y. y \<in> set ys \<Longrightarrow> MINYEAR \<le> y \<and> y \<le> MAXYEAR"
    and "map_of (entries c) = year_maps (observed c) S"
  shows "\<exists>c'. populate_all (populate_co (Suc (Suc n))) c ys = ok c'
      \<and> map_of (entries c') = year_maps (observed c) (S \<union> set ys)
      \<and> observed c' = observed c \<and> expand c' = expand c
      \<and> years c' = (if expand c then years c \<union> set ys else years c)"
  using assms
proof (induction ys arbitrary: c S)
  case Nil
  then show ?case by simp
next
  case (Cons y ys)
  let ?c1 = "populate_result c y"
  have 1: "populate_co (Suc (Suc n)) c y = ok ?c1"
    by (rule populate_co_result) (use Cons.prems(1) in auto)
  have 2: "map_of (entries ?c1) = year_maps (observed ?c1) (insert y S)"
    using year_maps_populate_result [OF Cons.prems(2)] by simp
  obtain c' where c': "populate_all (populate_co (Suc (Suc n))) ?c1 ys = ok c'"
      "map_of (entries c') = year_maps (observed ?c1) (insert y S \<union> set ys)"
      "observed c' = observed ?c1" "expand c' = expand ?c1"
      "years c' = (if expand ?c1 then years ?c1 \<union> set ys else years ?c1)"
    using Cons.IH [OF _ 2] Cons.prems(1) by auto
  show ?case using 1 c' by auto
qed

section \<open>Switching \<open>observed\<close> off and on again\<close>

lemma christmas_rule: "(ymd2ord y DEC 25, name_christmas) \<in> set (colombia_rules obs y)"
  by (simp add: colombia_rules_def)

lemma christmas_alone:
  assumes "(k, v) \<in> set (colombia_rules obs y)" and "k = ymd2ord y DEC 25"
  shows "v = name_christmas"
proof -
  obtain p where p: "- 6 \<le> p" "p \<le> 28"
    and e: "easter y = days_before_year y + leap_day y + 87 + p"
    by (rule easter_offset)
  note l = leap_day_range [of y]
  note th = rd_weekday_prev [where d = "easter y" and wd = THU]
  note fr = rd_weekday_prev [where d = "easter y" and wd = FRI]
  from assms(1) consider
      "(k, v) \<in> set (skip_weekend obs (ymd2ord y JAN 1) name_new_year)"
    | "k = ymd2ord y MAY 1"
    | "(k, v) \<in> set (skip_weekend obs (ymd2ord y JUL 20) name_independence)"
    | "k = ymd2ord y AUG 7"
    | "(k, v) \<in> set (skip_weekend obs (ymd2ord y DEC 8) name_immaculate)"
    | "v = name_christmas"
    | "(k, v) \<in> set (to_monday obs (ymd2ord y JAN 6) name_epiphany)"
    | "(k, v) \<in> set (to_monday obs (ymd2ord y MAR 19) name_joseph)"
    | "(k, v) \<in> set (to_monday obs (ymd2ord y JUN 29) name_peter_paul)"
    | "(k, v) \<in> set (to_monday obs (ymd2ord y AUG 15) name_assumption)"
    | "(k, v) \<in> set (to_monday obs (ymd2ord y OCT 12) name_discovery)"
    | "(k, v) \<in> set (to_monday obs (ymd2ord y NOV 1) name_all_saints)"
    | "(k, v) \<in> set (to_monday obs (ymd2ord y NOV 11) name_cartagena)"
    | "k = rd_weekday THU (- 1) (easter y)"
    | "k = rd_weekday FRI (- 1) (easter y)"
    | "(k, v) \<in> set (to_monday obs (easter y + 39) name_ascension)"
    | "(k, v) \<in> set (to_monday obs (easter y + 60) name_corpus)"
    | "(k, v) \<in> set (to_monday obs (easter y + 68) name_sacred_heart)"
    unfolding colombia_rules_def set_append by auto
  then show ?thesis
  proof cases
    case 1 then show ?thesis using l assms(2) by (auto dest!: skip_weekend_key simp: ymd2ord_values)
  next
    case 2 then show ?thesis using l assms(2) by (simp add: ymd2ord_values)
  next
    case 3 then show ?thesis using l assms(2) by (auto dest!: skip_weekend_key simp: ymd2ord_values)
  next
    case 4 then show ?thesis using l assms(2) by (simp add: ymd2ord_values)
  next
    case 5 then show ?thesis using l assms(2) by (auto dest!: skip_weekend_key simp: ymd2ord_values)
  next
    case 6 then show ?thesis .
  next
    case 7 then show ?thesis using l assms(2) by (auto dest!: to_monday_key simp: ymd2ord_values)
  next
    case 8 then show ?thesis using l assms(2) by (auto dest!: to_monday_key simp: ymd2ord_values)
  next
    case 9 then show ?thesis using l assms(2) by (auto dest!: to_monday_key simp: ymd2ord_values)
  next
    case 10 then show ?thesis using l assms(2) by (auto dest!: to_monday_key simp: ymd2ord_values)
  next
    case 11 then show ?thesis using l assms(2) by (auto dest!: to_monday_key simp: ymd2ord_values)
  next
    case 12 then show ?thesis using l assms(2) by (auto dest!: to_monday_key simp: ymd2ord_values)
  next
    case 13 then show ?thesis using l assms(2) by (auto dest!: to_monday_key simp: ymd2ord_values)
  next
    case 14 then show ?thesis using l p th assms(2) unfolding e by (simp add: ymd2ord_values)
  next
    case 15 then show ?thesis using l p fr assms(2) unfolding e by (simp add: ymd2ord_values)
  next
    case 16 then show ?thesis using l p assms(2) by (auto dest!: to_monday_key simp: e ymd2ord_values)
  next
    case 17 then show ?thesis using l p assms(2) by (auto dest!: to_monday_key simp: e ymd2ord_values)
  next
    case 18 then show ?thesis using l p assms(2) by (auto dest!: to_monday_key simp: e ymd2ord_values)
  qed
qed

lemma merge_at_same:
  "vs \<noteq> [] \<Longrightarrow> (\<And>v. v \<in> set vs \<Longrightarrow> v = x) \<Longrightarrow> merge_at None vs = Some x"
proof -
  assume ne: "vs \<noteq> []" and same: "\<And>v. v \<in> set vs \<Longrightarrow> v = x"
  obtain v rest where vs: "vs = v # rest" using ne by (cases vs) auto
  have v: "v = x" using same vs by simp
  have "merge_at (Some x) rest = Some x"
    by (rule merge_at_covered) (use same vs in auto)
  then show ?thesis by (simp add: vs v merged_def)
qed

lemma year_maps_christmas:
  assumes "y \<in> S"
  shows "year_maps obs S (ymd2ord y DEC 25) = Some name_christmas"
proof -
  let ?k = "ymd2ord y DEC 25"
  have yr: "date_year ?k = y" using christmas_rule by (rule colombia_rules_year)
  have ne: "labels_at ?k (colombia_rules obs y) \<noteq> []"
    using christmas_rule [of y obs] by (force simp: labels_at_def filter_empty_conv)
  have "merge_at None (labels_at ?k (colombia_rules obs y)) = Some name_christmas"
  proof (rule merge_at_same [OF ne])
    fix v assume "v \<in> set (labels_at ?k (colombia_rules obs y))"
    then have "(?k, v) \<in> set (colombia_rules obs y)" by (auto simp: labels_at_def)
    then show "v = name_christmas" by (rule christmas_alone) simp
  qed
  then show ?thesis using assms yr by (simp add: year_maps_def)
qed

lemma christmas_unmarked: "\<not> sublist ''Observed'' name_christmas"
  unfolding str_find_less0_iff [symmetric] by (simp add: name_christmas_def)

lemma colombia_init_result:
  assumes "\<And>y. y \<in> set ys \<Longrightarrow> MINYEAR \<le> y \<and> y \<le> MAXYEAR"
  shows "\<exists>c. colombia_init (Suc (Suc n)) ys ex obs pr st = ok c
      \<and> map_of (entries c) = year_maps obs (set ys)
      \<and> observed c = obs \<and> expand c = ex \<and> years c = set ys"
proof -
  let ?c0 = "\<lparr>entries = [], years = set ys, expand = ex, observed = obs,
        country = Some (StrV ''CO''), prov = pr, state = st\<rparr>"
  have 0: "map_of (entries ?c0) = year_maps (observed ?c0) {}"
    by (auto simp: year_maps_def)
  show ?thesis
    using populate_all_co [OF assms 0, of ys n] by (auto simp: colombia_init_def)
qed




section \<open>Populating a year twice\<close>

lemma no_clash_not_inside:
  assumes "no_clash c y"
  shows "not_inside (map_of (entries c) k) (labels_at k (colombia_rules (observed c) y))"
  using assms
  by (fastforce simp: no_clash_def not_inside_def labels_at_def list_all_iff)

lemma not_inside_no_clash:
  assumes "\<And>k. not_inside (map_of (entries c) k) (labels_at k (colombia_rules (observed c) y))"
  shows "no_clash c y"
  unfolding no_clash_def list_all_iff
proof
  fix kv assume kv: "kv \<in> set (colombia_rules (observed c) y)"
  then have "snd kv \<in> set (labels_at (fst kv) (colombia_rules (observed c) y))"
    by (auto simp: labels_at_def)
  then show "case map_of (entries c) (fst kv) of None \<Rightarrow> True
      | Some w \<Rightarrow> sublist w (snd kv) \<longrightarrow> sublist (snd kv) w"
    using assms [of "fst kv"] by (auto simp: not_inside_def split: option.splits)
qed

lemma merge_entry_covered:
  assumes "map_of es (fst kv) = Some w" "sublist (snd kv) w"
  shows "merge_entry es kv = es"
  using assms by (simp add: merge_entry_def merged_covers update_triv)

lemma merge_all_covered:
  "(\<And>kv. kv \<in> set kvs \<Longrightarrow> \<exists>w. map_of es (fst kv) = Some w \<and> sublist (snd kv) w)
   \<Longrightarrow> merge_all es kvs = es"
proof (induction kvs)
  case Nil
  then show ?case by simp
next
  case (Cons kv kvs)
  obtain w where "map_of es (fst kv) = Some w" "sublist (snd kv) w"
    using Cons.prems [of kv] by auto
  then have "merge_entry es kv = es" by (rule merge_entry_covered)
  then show ?case using Cons by simp
qed

lemma populate_result_covered:
  assumes nc: "no_clash c y" and kv: "kv \<in> set (colombia_rules (observed c) y)"
  shows "\<exists>w. map_of (entries (populate_result c y)) (fst kv) = Some w \<and> sublist (snd kv) w"
proof -
  let ?vs = "labels_at (fst kv) (colombia_rules (observed c) y)"
  have ni: "not_inside (map_of (entries c) (fst kv)) ?vs"
    by (rule no_clash_not_inside [OF nc])
  have m: "map_of (entries (populate_result c y)) (fst kv) = merge_at (map_of (entries c) (fst kv)) ?vs"
    by (rule map_of_populate_result_clean [OF ni])
  have v: "snd kv \<in> set ?vs" using kv by (auto simp: labels_at_def)
  then have "?vs \<noteq> []" by auto
  then obtain w where "merge_at (map_of (entries c) (fst kv)) ?vs = Some w" "\<forall>v \<in> set ?vs. sublist v w"
    using merge_at_covers [OF colombia_labels_at_incomparable ni] by blast
  then show ?thesis using m v by auto
qed

lemma populate_result_again:
  assumes "no_clash c y"
  shows "populate_result (populate_result c y) y = populate_result c y"
proof -
  let ?c1 = "populate_result c y"
  have "merge_all (entries ?c1) (colombia_rules (observed ?c1) y) = entries ?c1"
    by (rule merge_all_covered) (use populate_result_covered [OF assms] in simp)
  moreover have "merge_all (entries ?c1) (colombia_rules (observed c) y) = entries ?c1
      \<Longrightarrow> merge_all (merge_all (entries ?c1) (colombia_rules (observed c) y))
            (colombia_rules (observed c) y) = entries ?c1"
    by simp
  ultimately show ?thesis
    by (simp add: populate_result_def [of ?c1] Let_def insert_absorb)
qed

lemma no_clash_populate_result:
  assumes "\<And>y'. no_clash c y'"
  shows "no_clash (populate_result c y) y'"
proof (rule not_inside_no_clash)
  fix k
  let ?c1 = "populate_result c y"
  let ?vs = "labels_at k (colombia_rules (observed c) y)"
  have ni: "not_inside (map_of (entries c) k) ?vs"
    by (rule no_clash_not_inside [OF assms])
  have m: "map_of (entries ?c1) k = merge_at (map_of (entries c) k) ?vs"
    by (rule map_of_populate_result_clean [OF ni])
  show "not_inside (map_of (entries ?c1) k) (labels_at k (colombia_rules (observed ?c1) y'))"
  proof (cases "date_year k = y'")
    case False
    then have "labels_at k (colombia_rules (observed c) y') = []" by (rule labels_at_other_year)
    then show ?thesis by (simp add: not_inside_def)
  next
    case True
    show ?thesis
    proof (cases "y' = y")
      case True
      have "not_inside (merge_at (map_of (entries c) k) ?vs) ?vs"
        by (rule not_inside_merge_at [OF colombia_labels_at_incomparable]) (use ni in simp_all)
      then show ?thesis using m True by simp
    next
      case False
      then have "?vs = []" using True labels_at_other_year [of k y] by simp
      then have "map_of (entries ?c1) k = map_of (entries c) k" using m by simp
      then show ?thesis using no_clash_not_inside [OF assms, where y = y' and k = k] by simp
    qed
  qed
qed

lemma no_clash_fresh: "no_clash (fresh_co ex obs) y"
  by (simp add: no_clash_def fresh_co_def list_all_iff)



section \<open>Holidays moved to Monday, for every year\<close>

lemma weekday_next_monday: "weekday (rd_weekday MON 1 d) = MON"
proof -
  define r where "r = (d + 6) mod 7"
  have r: "0 \<le> r" "r < 7" by (simp_all add: r_def)
  have d: "d + 6 = 7 * ((d + 6) div 7) + r" by (simp add: r_def)
  have s: "(7 - r) mod 7 = (if r = 0 then 0 else 7 - r)"
  proof (cases "r = 0")
    case True then show ?thesis by simp
  next
    case False
    have "(7 - r) mod 7 = 7 - r"
      by (rule int_mod_pos_eq [where q = 0]) (use r False in auto)
    then show ?thesis using False by simp
  qed
  have "d + (7 - r) mod 7 + 6 = 7 * ((d + 6) div 7 + (if r = 0 then 0 else 1))"
    using d s by (simp split: if_splits)
  then have "(d + (7 - r) mod 7 + 6) mod 7 = 0" by simp
  then show ?thesis
    unfolding rd_weekday_def weekday_def MON_def Let_def r_def by simp
qed

lemma rd_weekday_next_strict: "weekday d \<noteq> MON \<Longrightarrow> d < rd_weekday MON 1 d"
  using weekday_next_monday [of d] rd_weekday_next(1) [where d = d and wd = MON]
  by (cases "rd_weekday MON 1 d = d") auto

lemma emiliani_rules:
  assumes "(r, nm) \<in> set (emiliani_holidays y)"
  shows "set (to_monday obs r nm) \<subseteq> set (colombia_rules obs y)"
  using assms by (auto simp: emiliani_holidays_def colombia_rules_def)

lemma year_maps_recorded:
  assumes "(d, l) \<in> set (colombia_rules obs y)" and "y \<in> S"
  shows "\<exists>w. year_maps obs S d = Some w \<and> sublist l w"
proof -
  let ?vs = "labels_at d (colombia_rules obs y)"
  have yr: "date_year d = y" using assms(1) by (rule colombia_rules_year)
  have l: "l \<in> set ?vs" using assms(1) by (force simp: labels_at_def)
  then have ne: "?vs \<noteq> []" by auto
  obtain w where "merge_at None ?vs = Some w" "\<forall>v \<in> set ?vs. sublist v w"
    using merge_at_covers [OF colombia_labels_at_incomparable _ ne, of None] by auto
  then show ?thesis using l yr assms(2) by (auto simp: year_maps_def)
qed



section \<open>Slices across years\<close>

lemma keytransform_co:
  assumes "MINYEAR \<le> date_year k" "date_year k \<le> MAXYEAR"
  shows "keytransform (populate_co (Suc n)) c k = ok (expanded c (date_year k))"
proof (cases "expand c \<and> date_year k \<notin> years c")
  case False
  then show ?thesis by (auto simp: keytransform_def expanded_def)
next
  case True
  let ?c0 = "c\<lparr>years := insert (date_year k) (years c)\<rparr>"
  have "populate_co (Suc n) ?c0 (date_year k)
      = ok (?c0\<lparr>entries := merge_all (entries ?c0) (colombia_rules (observed ?c0) (date_year k))\<rparr>)"
    by (rule populate_co_settled [OF assms]) simp
  then show ?thesis using True by (simp add: keytransform_def expanded_def)
qed

lemma settled_expanded: "settled (expanded c (date_year k)) k"
  by (auto simp: settled_def expanded_def)

text \<open>Insertion into a \<open>Colombia\<close> calendar always returns and merges as described.\<close>

lemma setitem_co:
  assumes "MINYEAR \<le> date_year k" "date_year k \<le> MAXYEAR"
  shows "setitem (populate_co (Suc n)) c k v =
     ok (expanded c (date_year k)
          \<lparr>entries := merge_entry (entries (expanded c (date_year k))) (k, v)\<rparr>)"
  using setitem_keytransform [OF keytransform_co [OF assms] settled_expanded, where v = v]
  by (simp add: merge_entry_def del: populate_co.simps)

lemma expanded_attrs [simp]:
  "expand (expanded c y) = expand c"
  "observed (expanded c y) = observed c"
  "years (expanded c y) = (if expand c then insert y (years c) else years c)"
  by (auto simp: expanded_def)

lemma map_of_expanded:
  assumes "map_of (entries (expanded c y)) k \<noteq> None"
  shows "map_of (entries c) k \<noteq> None \<or> date_year k = y"
proof (cases "date_year k = y")
  case True then show ?thesis by simp
next
  case False
  then have "labels_at k (colombia_rules (observed c) y) = []" by (rule labels_at_other_year)
  then have "map_of (entries (expanded c y)) k = map_of (entries c) k"
    by (simp add: expanded_def map_of_merge_all)
  then show ?thesis using assms by simp
qed



section \<open>Sums: population merges the constituents\<close>

lemma populate_kind_result:
  assumes "MINYEAR \<le> y" "y \<le> MAXYEAR"
  shows "populate_kind (Suc (Suc n)) k h y = ok (kind_result k h y)"
  using populate_co_result [OF assms]
  by (cases k) (simp_all add: populate_kind_def kind_result_def populate_base_def del: populate_co.simps)

lemma labels_at_distinct:
  "distinct (map fst es) \<Longrightarrow> labels_at k es = entry_list (map_of es k)"
proof (induction es)
  case Nil
  then show ?case by (simp add: labels_at_def entry_list_def)
next
  case (Cons kv es)
  show ?case
  proof (cases "fst kv = k")
    case True
    then have "k \<notin> fst ` set es" using Cons.prems by auto
    then have "filter (\<lambda>kv. fst kv = k) es = []" by (auto simp: filter_empty_conv)
    then show ?thesis using True by (cases kv) (simp add: labels_at_def entry_list_def)
  next
    case False
    then show ?thesis using Cons by (cases kv) (simp add: labels_at_def)
  qed
qed

lemma distinct_merge_entry: "distinct (map fst es) \<Longrightarrow> distinct (map fst (merge_entry es kv))"
  by (simp add: merge_entry_def distinct_update)

lemma distinct_merge_all: "distinct (map fst es) \<Longrightarrow> distinct (map fst (merge_all es kvs))"
  by (induction kvs arbitrary: es) (simp_all add: distinct_merge_entry)

lemma distinct_kind_result:
  "distinct (map fst (entries h)) \<Longrightarrow> distinct (map fst (entries (kind_result k h y)))"
  by (cases k) (auto simp: kind_result_def populate_result_def Let_def distinct_merge_all)

lemma keys_merge_all: "fst ` set (merge_all es kvs) = fst ` set es \<union> fst ` set kvs"
proof (induction kvs arbitrary: es)
  case Nil
  then show ?case by simp
next
  case (Cons kv kvs)
  have "fst ` set (merge_entry es kv) = insert (fst kv) (fst ` set es)"
    by (simp add: merge_entry_def dom_update [unfolded dom_map_of_conv_image_fst])
  then show ?case using Cons by auto
qed

lemma keys_kind_result:
  assumes "k \<in> fst ` set (entries (kind_result kd h y))"
  shows "k \<in> fst ` set (entries h) \<or> date_year k = y"
proof (cases kd)
  case KHolidayBase
  then show ?thesis using assms by (simp add: kind_result_def)
next
  case KColombia
  then have "k \<in> fst ` set (entries h) \<union> fst ` set (colombia_rules (observed h) y)"
    using assms by (auto simp: kind_result_def populate_result_def Let_def keys_merge_all split: if_splits)
  then show ?thesis using colombia_rules_year [of k _ "observed h" y] by auto
qed

lemma covers_settled:
  assumes "covers c y h" and "(k, v) \<in> set (entries (kind_result kd h y))"
    and "expand c' = expand c" "years c' = years c"
  shows "settled c' k"
proof -
  have "k \<in> fst ` set (entries (kind_result kd h y))" using assms(2) by force
  then have "k \<in> fst ` set (entries h) \<or> date_year k = y" by (rule keys_kind_result)
  then show ?thesis using assms(1,3,4) by (auto simp: covers_def settled_def)
qed

lemma sum_loop_step:
  assumes "holidays c ! i = (k, h)" and "hpop k h y = ok h'"
    and "insert_all spop (c\<lparr>holidays := (holidays c)[i := (k, h')]\<rparr>) (entries h') = ok c'"
  shows "sum_loop hpop spop y c (i # is) = sum_loop hpop spop y c' is"
  using assms by simp

lemma populate_sum_two:
  assumes y: "MINYEAR \<le> y" "y \<le> MAXYEAR"
    and hs: "holidays c = [(ka, a), (kb, b)]"
    and ca: "covers c y a" and cb: "covers c y b"
  shows "populate_sum (Suc (Suc (Suc n))) c y =
     ok (c\<lparr>entries := merge_all (merge_all (entries c) (entries (kind_result kb b y)))
                         (entries (kind_result ka a y)),
           holidays := [(ka, kind_result ka a y), (kb, kind_result kb b y)]\<rparr>)"
proof -
  let ?a' = "kind_result ka a y" and ?b' = "kind_result kb b y"
  let ?hp = "populate_kind (Suc (Suc n))" and ?sp = "populate_sum (Suc (Suc n))"
  let ?c1 = "c\<lparr>holidays := (holidays c)[1 := (kb, ?b')]\<rparr>"
  let ?c2 = "?c1\<lparr>entries := merge_all (entries ?c1) (entries ?b')\<rparr>"
  let ?c3 = "?c2\<lparr>holidays := (holidays ?c2)[0 := (ka, ?a')]\<rparr>"
  let ?c4 = "?c3\<lparr>entries := merge_all (entries ?c3) (entries ?a')\<rparr>"
  have pa: "?hp ka a y = ok ?a'" and pb: "?hp kb b y = ok ?b'"
    by (rule populate_kind_result [OF y])+
  have i1: "insert_all ?sp ?c1 (entries ?b') = ok ?c2"
    by (rule insert_all_settled) (rule covers_settled [OF cb], simp_all)
  have i2: "insert_all ?sp ?c3 (entries ?a') = ok ?c4"
    by (rule insert_all_settled) (rule covers_settled [OF ca], simp_all)
  have idx: "rev [0 ..< length (holidays c)] = [1, 0]"
    by (simp add: hs upt_rec)
  have h1: "holidays c ! 1 = (kb, b)" and h0: "holidays ?c2 ! 0 = (ka, a)"
    by (simp_all add: hs)
  have "sum_loop ?hp ?sp y c [1, 0] = sum_loop ?hp ?sp y ?c2 [0]"
    using h1 pb i1 by (rule sum_loop_step [where k = kb and h = b and h' = "?b'"])
  also have "\<dots> = sum_loop ?hp ?sp y ?c4 []"
    using h0 pa i2 by (rule sum_loop_step [where k = ka and h = a and h' = "?a'"])
  finally have "sum_loop ?hp ?sp y c [1, 0] = ok ?c4" by simp
  then have "populate_sum (Suc (Suc (Suc n))) c y = ok ?c4"
    by (simp add: idx del: sum_loop.simps)
  moreover have "?c4 = c\<lparr>entries := merge_all (merge_all (entries c) (entries ?b')) (entries ?a'),
           holidays := [(ka, ?a'), (kb, ?b')]\<rparr>"
    by (simp add: hs)
  ultimately show ?thesis by simp
qed

lemma keys_kept_kind_result:
  assumes "map_of (entries h) k \<noteq> None"
  shows "map_of (entries (kind_result kd h y)) k \<noteq> None"
proof -
  have "k \<in> fst ` set (entries h)" using assms by (simp add: map_of_eq_None_iff)
  then have "k \<in> fst ` set (entries (kind_result kd h y))"
    by (cases kd) (auto simp: kind_result_def populate_result_def Let_def keys_merge_all)
  then show ?thesis by (simp add: map_of_eq_None_iff)
qed

lemma merge_at_not_None: "vs \<noteq> [] \<or> e \<noteq> None \<Longrightarrow> merge_at e vs \<noteq> None"
  by (induction vs arbitrary: e) auto

lemma add_two_simple:
  assumes "sum_country a b = Inr cn"
  shows "add n [] (Simple ka a) (CalV (Simple kb b)) =
     ok (Composite
          \<lparr>entries = [], years = years a \<union> years b,
           expand = (expand a \<or> expand b), observed = (observed a \<or> observed b),
           country = Some cn, prov = sum_prov a b, state = NoneV,
           holidays = [(ka, a), (kb, b)]\<rparr>)"
  using assms by (simp add: add_def cal_base_def constituents_def)



section \<open>Fixed-date holidays, for every year\<close>

lemma colombia_rules_cases:
  assumes "(k, v) \<in> set (colombia_rules obs y)"
  obtains
      "(k, v) \<in> set (skip_weekend obs (ymd2ord y JAN 1) name_new_year)"
    | "k = ymd2ord y MAY 1"
    | "(k, v) \<in> set (skip_weekend obs (ymd2ord y JUL 20) name_independence)"
    | "k = ymd2ord y AUG 7"
    | "(k, v) \<in> set (skip_weekend obs (ymd2ord y DEC 8) name_immaculate)"
    | "k = ymd2ord y DEC 25"
    | d nm where "(k, v) \<in> set (to_monday obs d nm)"
        "d \<in> {ymd2ord y JAN 6, ymd2ord y MAR 19, ymd2ord y JUN 29, ymd2ord y AUG 15,
               ymd2ord y OCT 12, ymd2ord y NOV 1, ymd2ord y NOV 11}"
    | "k = rd_weekday THU (- 1) (easter y)"
    | "k = rd_weekday FRI (- 1) (easter y)"
    | d nm where "(k, v) \<in> set (to_monday obs d nm)"
        "d \<in> {easter y + 39, easter y + 60, easter y + 68}"
  using assms unfolding colombia_rules_def set_append by auto

lemma guarded_date_free:
  assumes d: "(d, nm) \<in> set (guarded_holidays y)" and w: "weekday d \<in> set WEEKEND"
    and kv: "(k, v) \<in> set (colombia_rules True y)"
  shows "k \<noteq> d"
proof -
  obtain p where p: "- 6 \<le> p" "p \<le> 28"
    and e: "easter y = days_before_year y + leap_day y + 87 + p"
    by (rule easter_offset)
  note l = leap_day_range [of y]
  note th = rd_weekday_prev [where d = "easter y" and wd = THU]
  note fr = rd_weekday_prev [where d = "easter y" and wd = FRI]
  have dd: "d = ymd2ord y JAN 1 \<or> d = ymd2ord y JUL 20 \<or> d = ymd2ord y DEC 8"
    using d by (auto simp: guarded_holidays_def)
  from kv show ?thesis
  proof (cases rule: colombia_rules_cases)
    case 1 then show ?thesis using l dd w
      by (auto simp: skip_weekend_def ymd2ord_values split: if_splits)
  next
    case 2 then show ?thesis using l dd by (auto simp: ymd2ord_values)
  next
    case 3 then show ?thesis using l dd w
      by (auto simp: skip_weekend_def ymd2ord_values split: if_splits)
  next
    case 4 then show ?thesis using l dd by (auto simp: ymd2ord_values)
  next
    case 5 then show ?thesis using l dd w
      by (auto simp: skip_weekend_def ymd2ord_values split: if_splits)
  next
    case 6 then show ?thesis using l dd by (auto simp: ymd2ord_values)
  next
    case (7 d' nm') then show ?thesis using l dd
      by (auto dest!: to_monday_key simp: ymd2ord_values)
  next
    case 8 then show ?thesis using l p th dd unfolding e by (auto simp: ymd2ord_values)
  next
    case 9 then show ?thesis using l p fr dd unfolding e by (auto simp: ymd2ord_values)
  next
    case (10 d' nm') then show ?thesis using l p dd
      by (auto dest!: to_monday_key simp: e ymd2ord_values)
  qed
qed

text \<open>
  What the code does for the fixed-date holidays, for every year: the three that carry
  the weekend test are absent on a weekend when \<open>observed\<close> is set, and all six are
  recorded when \<open>observed\<close> is off; the three without the test are recorded always.
\<close>

lemma fixed_date_holidays:
  assumes "MINYEAR \<le> y" "y \<le> MAXYEAR"
  shows "\<exists>c. colombia_init (Suc (Suc n)) [y] ex obs pr st = ok c
     \<and> (\<forall>(d, nm) \<in> set (guarded_holidays y).
           if obs \<and> weekday d \<in> set WEEKEND then map_of (entries c) d = None
           else recorded c d nm)
     \<and> (\<forall>(d, nm) \<in> set (unguarded_holidays y). recorded c d nm)"
proof -
  obtain c where c: "colombia_init (Suc (Suc n)) [y] ex obs pr st = ok c"
      "map_of (entries c) = year_maps obs (set [y])"
    using colombia_init_result [of "[y]" n ex obs pr st] assms by auto
  have rec: "recorded c d l" if "(d, l) \<in> set (colombia_rules obs y)" for d l
    using year_maps_recorded [OF that, of "set [y]"] c(2) by (auto simp: recorded_def)
  have 1: "map_of (entries c) d = None"
    if "(d, nm) \<in> set (guarded_holidays y)" "obs" "weekday d \<in> set WEEKEND" for d nm
  proof -
    have "labels_at d (colombia_rules True y) = []"
      using guarded_date_free [OF that(1,3)] by (fastforce simp: labels_at_def filter_empty_conv)
    then show ?thesis using c(2) that(2) by (simp add: year_maps_def)
  qed
  have 2: "recorded c d nm"
    if "(d, nm) \<in> set (guarded_holidays y)" "\<not> (obs \<and> weekday d \<in> set WEEKEND)" for d nm
  proof -
    have "(d, nm) \<in> set (skip_weekend obs d nm)" using that(2) by (simp add: skip_weekend_def)
    then have "(d, nm) \<in> set (colombia_rules obs y)"
      using that(1) by (auto simp: guarded_holidays_def colombia_rules_def)
    then show ?thesis by (rule rec)
  qed
  have 3: "recorded c d nm" if "(d, nm) \<in> set (unguarded_holidays y)" for d nm
  proof -
    have "(d, nm) \<in> set (colombia_rules obs y)"
      using that by (auto simp: unguarded_holidays_def colombia_rules_def)
    then show ?thesis by (rule rec)
  qed
  show ?thesis using c(1) 1 2 3 by (intro exI [of _ c]) (auto simp del: colombia_init_def)
qed

end
